theory Spec2Isabelle
  imports Complex_Main "HOL-Library.Word"
begin

section \<open>The assembly layer of the integrator (integrals.cpp)\<close>

text \<open>
  The C++ type \<open>size_t\<close> is a 64-bit unsigned integer: sums and products wrap around
  and \<open>/\<close> is unsigned division.  \<open>unsigned int\<close> and \<open>int\<close> are 32 bits wide.
  A \<open>double\<close> is modelled by a real number; the only doubles the assembly layer
  inspects itself are the markers \<open>-1.0\<close> and \<open>1.0\<close> and the constant \<open>0.0\<close>.
\<close>

type_synonym size_t = "64 word"
type_synonym uint = "32 word"

subsection \<open>Integrator::teindex\<close>

text \<open>
  The two \<open>std::swap\<close> calls on the index pairs and the one on the compound indices
  are the three conditional pairs; the body is otherwise the source's.
\<close>

definition teindex :: "size_t \<Rightarrow> size_t \<Rightarrow> size_t \<Rightarrow> size_t \<Rightarrow> size_t" where
  "teindex i j k l =
     (let (i, j) = (if i < j then (j, i) else (i, j));
          (k, l) = (if k < l then (l, k) else (k, l));
          ij = i * (i + 1) div 2 + j;
          kl = k * (k + 1) div 2 + l;
          (ij, kl) = (if ij < kl then (kl, ij) else (ij, kl))
      in ij * (ij + 1) div 2 + kl)"

text \<open>The compound index \<open>a * (a + 1) / 2 + b\<close> that the source forms four times.\<close>

definition compound :: "size_t \<Rightarrow> size_t \<Rightarrow> size_t" where
  "compound a b = a * (a + 1) div 2 + b"

text \<open>The triangular number \<open>n * (n + 1) / 2\<close> over the natural numbers, where nothing wraps.\<close>

definition tri :: "nat \<Rightarrow> nat" where
  "tri n = n * (n + 1) div 2"

text \<open>The compound index of the last pair \<open>(n - 1, n - 1)\<close> of a basis set of size \<open>n\<close>.\<close>

definition top_pair :: "nat \<Rightarrow> nat" where
  "top_pair n = tri (n - 1) + (n - 1)"

subsection \<open>Integrator::evaluate\_cgfs: the job list\<close>

text \<open>
  The only exception the function throws itself is the \<open>std::runtime_error\<close>
  "Process tried to access illegal array position".
\<close>

datatype error = Illegal_array_position

text \<open>A job is the array \<open>{idx, i, j, k, l}\<close>.\<close>

type_synonym job = "size_t \<times> size_t \<times> size_t \<times> size_t \<times> size_t"

definition job_idx :: "job \<Rightarrow> size_t" where
  "job_idx jb = fst jb"

text \<open>The values \<open>0, 1, ..., sz - 1\<close> of a loop \<open>for(size_t i=0; i<sz; i++)\<close>.\<close>

definition index_range :: "size_t \<Rightarrow> size_t list" where
  "index_range sz = map of_nat [0..<unat sz]"

text \<open>A loop whose body may throw: the first exception ends it.\<close>

fun for_each :: "'a list \<Rightarrow> ('a \<Rightarrow> 's \<Rightarrow> error + 's) \<Rightarrow> 's \<Rightarrow> error + 's" where
  "for_each [] body s = Inr s"
| "for_each (x # xs) body s =
     (case body x s of Inl e \<Rightarrow> Inl e | Inr s' \<Rightarrow> for_each xs body s')"

text \<open>
  The body of the innermost loop.  The state is the marker array \<open>tedouble\<close> and the
  job list; \<open>ij\<close> is computed one loop further out, as in the source.
\<close>

definition job_step ::
  "size_t \<Rightarrow> size_t \<Rightarrow> size_t \<Rightarrow> size_t \<Rightarrow> size_t \<Rightarrow> real list \<times> job list
     \<Rightarrow> error + real list \<times> job list" where
  "job_step i j ij k l st =
     (case st of (tedouble, jobs) \<Rightarrow>
        let kl = k * (k + 1) div 2 + l in
        if ij \<le> kl then
          (let idx = teindex i j k l in
           if length tedouble \<le> unat idx then Inl Illegal_array_position
           else if tedouble ! unat idx < 0
             then Inr (tedouble[unat idx := 1], jobs @ [(idx, i, j, k, l)])
             else Inr (tedouble, jobs))
        else Inr (tedouble, jobs))"

text \<open>The length \<open>teindex(sz-1,sz-1,sz-1,sz-1) + 1\<close> requested for \<open>tedouble\<close>.\<close>

definition tedouble_size :: "size_t \<Rightarrow> size_t" where
  "tedouble_size sz = teindex (sz - 1) (sz - 1) (sz - 1) (sz - 1) + 1"

text \<open>
  The allocation of \<open>tedouble\<close>, filled with \<open>-1.0\<close>, and the four nested loops that
  unroll the quadruples into the job list.
\<close>

definition build_jobs :: "size_t \<Rightarrow> error + real list \<times> job list" where
  "build_jobs sz =
     for_each (index_range sz) (\<lambda>i.
       for_each (index_range sz) (\<lambda>j.
         let ij = i * (i + 1) div 2 + j in
         for_each (index_range sz) (\<lambda>k.
           for_each (index_range sz) (\<lambda>l. job_step i j ij k l))))
       (replicate (unat (tedouble_size sz)) (- 1), [])"

text \<open>The quadruples the four nested loops visit, in their order.\<close>

definition quadruples :: "size_t \<Rightarrow> (size_t \<times> size_t \<times> size_t \<times> size_t) list" where
  "quadruples sz =
     List.product (index_range sz)
       (List.product (index_range sz) (List.product (index_range sz) (index_range sz)))"

text \<open>The loop body as a function of the quadruple, and the test that guards it.\<close>

definition quad_step ::
  "size_t \<times> size_t \<times> size_t \<times> size_t \<Rightarrow> real list \<times> job list
     \<Rightarrow> error + real list \<times> job list" where
  "quad_step q = (case q of (i, j, k, l) \<Rightarrow> job_step i j (compound i j) k l)"

definition scheduled :: "size_t \<times> size_t \<times> size_t \<times> size_t \<Rightarrow> bool" where
  "scheduled q = (case q of (i, j, k, l) \<Rightarrow> compound i j \<le> compound k l)"

definition key :: "size_t \<times> size_t \<times> size_t \<times> size_t \<Rightarrow> size_t" where
  "key q = (case q of (i, j, k, l) \<Rightarrow> teindex i j k l)"

text \<open>The keys of all quadruples of a basis set of size \<open>sz\<close>.\<close>

definition all_keys :: "size_t \<Rightarrow> size_t set" where
  "all_keys sz = key ` set (quadruples sz)"

subsection \<open>Integrator::evaluate\_cgfs: the matrices and the result vector\<close>

text \<open>
  An \<open>Eigen::MatrixXd\<close> of \<open>n\<close> rows and columns is its array \<open>data()\<close> of \<open>n * n\<close>
  doubles, stored by columns: the entry \<open>(i, j)\<close> is at position \<open>i + j * n\<close>.
\<close>

definition mat_zero :: "nat \<Rightarrow> real list" where
  "mat_zero n = replicate (n * n) 0"

definition mat_get :: "nat \<Rightarrow> nat \<Rightarrow> nat \<Rightarrow> real list \<Rightarrow> real" where
  "mat_get n i j m = m ! (i + j * n)"

definition mat_set :: "nat \<Rightarrow> nat \<Rightarrow> nat \<Rightarrow> real \<Rightarrow> real list \<Rightarrow> real list" where
  "mat_set n i j v m = m[i + j * n := v]"

type_synonym vec3 = "real \<times> real \<times> real"

text \<open>The cast \<open>(int)\<close> of a \<open>size_t\<close>: the low 32 bits, read as two's complement.\<close>

definition int_cast :: "size_t \<Rightarrow> int" where
  "int_cast s = sint (ucast s :: uint)"

text \<open>
  The body of the first pair of loops, for one \<open>(i, j)\<close> with \<open>i \<le> j\<close>.  The four
  integrals over contracted functions are the parameters \<open>overlap\<close>, \<open>kinetic\<close>,
  \<open>nuclear\<close> and \<open>repulsion\<close>; what is proved holds whatever they return.
  \<open>S(i,j) = S(j,i) = v\<close> stores \<open>v\<close> at \<open>(j, i)\<close> and then at \<open>(i, j)\<close>.
\<close>

definition pair_step ::
  "('c \<Rightarrow> 'c \<Rightarrow> real) \<Rightarrow> ('c \<Rightarrow> 'c \<Rightarrow> real) \<Rightarrow> ('c \<Rightarrow> 'c \<Rightarrow> vec3 \<Rightarrow> int \<Rightarrow> real) \<Rightarrow>
   'c list \<Rightarrow> int list \<Rightarrow> real list \<Rightarrow> real list \<Rightarrow> real list \<Rightarrow> nat \<Rightarrow> nat \<Rightarrow>
   real list \<times> real list \<times> real list list \<Rightarrow> real list \<times> real list \<times> real list list" where
  "pair_step overlap kinetic nuclear cgfs charges px py pz i j st =
     (case st of (S, T, Vn) \<Rightarrow>
        let n = length cgfs;
            s = overlap (cgfs ! i) (cgfs ! j);
            t = kinetic (cgfs ! i) (cgfs ! j)
        in (mat_set n i j s (mat_set n j i s S),
            mat_set n i j t (mat_set n j i t T),
            fold (\<lambda>k Vn.
                    let v = nuclear (cgfs ! i) (cgfs ! j) (px ! k, py ! k, pz ! k) (charges ! k)
                    in Vn[k := mat_set n i j v (mat_set n j i v (Vn ! k))])
                 [0..<length charges] Vn))"

text \<open>
  The loops \<open>for(int i=0; i<(int)sz; i++)\<close> and \<open>for(unsigned int j=i; j<sz; j++)\<close>
  over the zero matrices.  The counters \<open>j\<close> and \<open>k\<close> are \<open>unsigned int\<close>; they count
  without wrapping up to \<open>2^32\<close>, more rows than a matrix of \<open>sz * sz\<close> doubles can have.
\<close>

definition one_electron ::
  "('c \<Rightarrow> 'c \<Rightarrow> real) \<Rightarrow> ('c \<Rightarrow> 'c \<Rightarrow> real) \<Rightarrow> ('c \<Rightarrow> 'c \<Rightarrow> vec3 \<Rightarrow> int \<Rightarrow> real) \<Rightarrow>
   'c list \<Rightarrow> int list \<Rightarrow> real list \<Rightarrow> real list \<Rightarrow> real list \<Rightarrow>
   real list \<times> real list \<times> real list list" where
  "one_electron overlap kinetic nuclear cgfs charges px py pz =
     (let n = length cgfs; sz = (of_nat n :: size_t)
      in fold (\<lambda>i. fold (pair_step overlap kinetic nuclear cgfs charges px py pz i) [i..<n])
           [0..<nat (int_cast sz)]
           (mat_zero n, mat_zero n, replicate (length charges) (mat_zero n)))"

text \<open>The loops that add the matrices of the single charges into \<open>V\<close>.\<close>

definition combine_nuclear :: "nat \<Rightarrow> nat \<Rightarrow> real list list \<Rightarrow> real list" where
  "combine_nuclear n nc Vn =
     fold (\<lambda>i. fold (\<lambda>j. fold (\<lambda>k V.
             mat_set n i j (mat_get n i j V + mat_get n i j (Vn ! k)) V) [0..<nc]) [0..<n])
       [0..<n] (mat_zero n)"

text \<open>The loop \<open>for(int s=0; s<(int)jobs.size(); s++)\<close> that evaluates the jobs.\<close>

definition evaluate_jobs ::
  "('c \<Rightarrow> 'c \<Rightarrow> 'c \<Rightarrow> 'c \<Rightarrow> real) \<Rightarrow> 'c list \<Rightarrow> job list \<Rightarrow> real list \<Rightarrow> real list" where
  "evaluate_jobs repulsion cgfs jobs tedouble =
     fold (\<lambda>s tedouble.
             case jobs ! s of (idx, i, j, k, l) \<Rightarrow>
               tedouble[unat idx :=
                 repulsion (cgfs ! unat i) (cgfs ! unat j) (cgfs ! unat k) (cgfs ! unat l)])
       [0..<nat (int_cast (of_nat (length jobs)))] tedouble"

text \<open>
  The two-electron part: the job list, then its evaluation.  The vectors \<open>Svec\<close>,
  \<open>Tvec\<close> and \<open>Vvec\<close> copy the \<open>sz * sz\<close> doubles of the matrices, which are all
  their entries.
\<close>

definition two_electron ::
  "('c \<Rightarrow> 'c \<Rightarrow> 'c \<Rightarrow> 'c \<Rightarrow> real) \<Rightarrow> 'c list \<Rightarrow> error + real list" where
  "two_electron repulsion cgfs =
     (case build_jobs (of_nat (length cgfs)) of
        Inl e \<Rightarrow> Inl e
      | Inr (tedouble, jobs) \<Rightarrow> Inr (evaluate_jobs repulsion cgfs jobs tedouble))"

definition evaluate_cgfs ::
  "('c \<Rightarrow> 'c \<Rightarrow> real) \<Rightarrow> ('c \<Rightarrow> 'c \<Rightarrow> real) \<Rightarrow> ('c \<Rightarrow> 'c \<Rightarrow> vec3 \<Rightarrow> int \<Rightarrow> real) \<Rightarrow>
   ('c \<Rightarrow> 'c \<Rightarrow> 'c \<Rightarrow> 'c \<Rightarrow> real) \<Rightarrow>
   'c list \<Rightarrow> int list \<Rightarrow> real list \<Rightarrow> real list \<Rightarrow> real list \<Rightarrow> error + real list" where
  "evaluate_cgfs overlap kinetic nuclear repulsion cgfs charges px py pz =
     (case one_electron overlap kinetic nuclear cgfs charges px py pz of (S, T, Vn) \<Rightarrow>
        (let V = combine_nuclear (length cgfs) (length charges) Vn
         in (case two_electron repulsion cgfs of
               Inl e \<Rightarrow> Inl e
             | Inr tedouble \<Rightarrow> Inr (S @ T @ V @ tedouble))))"




text \<open>A symmetric matrix of \<open>n\<close> rows and columns.\<close>

definition symmetric :: "nat \<Rightarrow> real list \<Rightarrow> bool" where
  "symmetric n m = (length m = n * n \<and> (\<forall>i<n. \<forall>j<n. mat_get n i j m = mat_get n j i m))"

text \<open>The invariant of the first pair of loops.\<close>

definition one_inv :: "nat \<Rightarrow> nat \<Rightarrow> real list \<times> real list \<times> real list list \<Rightarrow> bool" where
  "one_inv n nc st =
     (case st of (S, T, Vn) \<Rightarrow>
        symmetric n S \<and> symmetric n T \<and> length Vn = nc \<and> (\<forall>k<nc. symmetric n (Vn ! k)))"

text \<open>The sum the innermost loop adds to the entry at position \<open>p\<close> of \<open>V\<close>.\<close>

definition charge_sum :: "real list list \<Rightarrow> nat \<Rightarrow> nat \<Rightarrow> real \<Rightarrow> real" where
  "charge_sum Vn nc p v = fold (\<lambda>k acc. acc + Vn ! k ! p) [0..<nc] v"

text \<open>
  The invariant of the job loop for an array of \<open>n\<close> markers: a slot is still
  \<open>-1.0\<close> exactly when no job has its index, no index is scheduled twice, and every
  job carries the key of its own quadruple, which the loop has visited.
\<close>

definition jobs_inv ::
  "nat \<Rightarrow> (size_t \<times> size_t \<times> size_t \<times> size_t) set \<Rightarrow> real list \<times> job list \<Rightarrow> bool" where
  "jobs_inv n Q st =
     (case st of (tedouble, jobs) \<Rightarrow>
        length tedouble = n \<and>
        (\<forall>x<n. tedouble ! x = - 1 \<or> tedouble ! x = 1) \<and>
        (\<forall>x<n. tedouble ! x < 0 \<longleftrightarrow> x \<notin> unat ` job_idx ` set jobs) \<and>
        distinct (map job_idx jobs) \<and>
        (\<forall>jb\<in>set jobs. job_idx jb = key (snd jb) \<and> scheduled (snd jb) \<and> snd jb \<in> Q \<and>
           unat (job_idx jb) < n))"

section \<open>The integral kernels (integrals.cpp)\<close>

text \<open>
  An \<open>int\<close> is a 32-bit word read as two's complement, an \<open>unsigned int\<close> the same word
  read as unsigned, so that passing one for the other changes no bit.  Arithmetic on
  doubles is modelled by the arithmetic of the reals, \<open>std::pow\<close> with an integer
  exponent by \<open>powi\<close>, with the exponent 1.5 by \<open>powr\<close>.
\<close>

type_synonym cint = "32 word"

subsection \<open>Vectors\<close>

definition vec_at :: "vec3 \<Rightarrow> nat \<Rightarrow> real" where
  "vec_at v c = (case v of (x, y, z) \<Rightarrow> if c = 0 then x else if c = 1 then y else z)"

definition vec_minus :: "vec3 \<Rightarrow> vec3 \<Rightarrow> vec3" where
  "vec_minus a b = (vec_at a 0 - vec_at b 0, vec_at a 1 - vec_at b 1, vec_at a 2 - vec_at b 2)"

definition squaredNorm :: "vec3 \<Rightarrow> real" where
  "squaredNorm v = vec_at v 0 * vec_at v 0 + vec_at v 1 * vec_at v 1 + vec_at v 2 * vec_at v 2"

subsection \<open>Primitive and contracted Gaussians\<close>

text \<open>
  Modelled from the spec: the value objects \<open>GTO\<close> and \<open>CGF\<close> of cgf.h, which is not
  among the sources.  A primitive orbital has a contraction coefficient, a centre, an
  exponent, the angular momenta \<open>l, m, n\<close> (\<open>unsigned int\<close>) and a normalisation
  constant; a contracted function has a centre and its primitives in order.  The
  constructor \<open>GTO(c, x, y, z, alpha, l, m, n)\<close> computes the normalisation constant
  from the exponent and the angular momenta; that computation is the parameter \<open>nrm\<close>.
\<close>

record gto =
  gto_c :: real
  gto_position :: vec3
  gto_alpha :: real
  gto_l :: uint
  gto_m :: uint
  gto_n :: uint
  gto_norm :: real

record cgf =
  cgf_r :: vec3
  cgf_gtos :: "gto list"

definition GTO ::
  "(real \<Rightarrow> uint \<Rightarrow> uint \<Rightarrow> uint \<Rightarrow> real) \<Rightarrow> real \<Rightarrow> real \<Rightarrow> real \<Rightarrow> real \<Rightarrow> real \<Rightarrow>
   uint \<Rightarrow> uint \<Rightarrow> uint \<Rightarrow> gto" where
  "GTO nrm c x y z alpha l m n =
     \<lparr>gto_c = c, gto_position = (x, y, z), gto_alpha = alpha, gto_l = l, gto_m = m, gto_n = n,
      gto_norm = nrm alpha l m n\<rparr>"

definition cgf_size :: "cgf \<Rightarrow> nat" where
  "cgf_size c = length (cgf_gtos c)"

definition get_gto :: "cgf \<Rightarrow> nat \<Rightarrow> gto" where
  "get_gto c k = cgf_gtos c ! k"

definition get_norm_gto :: "cgf \<Rightarrow> nat \<Rightarrow> real" where
  "get_norm_gto c k = gto_norm (cgf_gtos c ! k)"

definition get_coefficient_gto :: "cgf \<Rightarrow> nat \<Rightarrow> real" where
  "get_coefficient_gto c k = gto_c (cgf_gtos c ! k)"

subsection \<open>Combinatorial helpers\<close>

text \<open>
  \<open>boost::math::factorial<double>\<close> and \<open>boost::math::double_factorial<double>\<close> are
  library functions; they are modelled by the factorial and the double factorial.
\<close>

definition factorial_d :: "nat \<Rightarrow> real" where
  "factorial_d n = fact n"

fun double_factorial_d :: "nat \<Rightarrow> real" where
  "double_factorial_d 0 = 1"
| "double_factorial_d (Suc 0) = 1"
| "double_factorial_d (Suc (Suc n)) = real (Suc (Suc n)) * double_factorial_d n"

text \<open>
  \<open>Integrator::binomial\<close>.  The three tests are joined by the bitwise \<open>|\<close>, so all are
  evaluated; the difference \<open>a - b\<close> is the 32-bit one.
\<close>

definition binomial :: "cint \<Rightarrow> cint \<Rightarrow> real" where
  "binomial a b =
     (if a <s 0 \<or> b <s 0 \<or> a - b <s 0 then 1
      else factorial_d (nat (sint a)) /
             (factorial_d (nat (sint b)) * factorial_d (nat (sint (a - b)))))"

text \<open>\<open>Integrator::binomial_prefactor\<close>: the loop \<open>for (int t=0; t < s+1; t++)\<close>.\<close>

definition binomial_prefactor :: "cint \<Rightarrow> cint \<Rightarrow> cint \<Rightarrow> real \<Rightarrow> real \<Rightarrow> real" where
  "binomial_prefactor s ia ib xpa xpb =
     (\<Sum>t\<leftarrow>map of_nat [0..<nat (sint (s + 1))].
        if s - ia \<le>s t \<and> t \<le>s ib
        then binomial ia (s - t) * binomial ib t *
             xpa powi sint (ia - s + t) * xpb powi sint (ib - t)
        else 0)"

subsection \<open>Overlap and kinetic integrals of primitives\<close>

text \<open>
  \<open>Integrator::overlap_1D\<close>: the loop runs while \<open>i\<close> is below the double
  \<open>1 + floor(0.5 * (l1 + l2))\<close>.
\<close>

definition overlap_1D :: "cint \<Rightarrow> cint \<Rightarrow> real \<Rightarrow> real \<Rightarrow> real \<Rightarrow> real" where
  "overlap_1D l1 l2 x1 x2 gamma =
     (\<Sum>i\<leftarrow>[0..<nat (1 + \<lfloor>0.5 * real_of_int (sint (l1 + l2))\<rfloor>)].
        binomial_prefactor (2 * of_nat i) l1 l2 x1 x2 *
        (if i = 0 then 1 else double_factorial_d (2 * i - 1)) / (2 * gamma) ^ i)"

definition gaussian_product_center :: "real \<Rightarrow> vec3 \<Rightarrow> real \<Rightarrow> vec3 \<Rightarrow> vec3" where
  "gaussian_product_center alpha1 a alpha2 b =
     ((alpha1 * vec_at a 0 + alpha2 * vec_at b 0) / (alpha1 + alpha2),
      (alpha1 * vec_at a 1 + alpha2 * vec_at b 1) / (alpha1 + alpha2),
      (alpha1 * vec_at a 2 + alpha2 * vec_at b 2) / (alpha1 + alpha2))"

text \<open>The overlap of two primitives from their parameters.\<close>

definition overlap ::
  "real \<Rightarrow> uint \<Rightarrow> uint \<Rightarrow> uint \<Rightarrow> vec3 \<Rightarrow> real \<Rightarrow> uint \<Rightarrow> uint \<Rightarrow> uint \<Rightarrow> vec3 \<Rightarrow> real" where
  "overlap alpha1 l1 m1 n1 a alpha2 l2 m2 n2 b =
     (let rab2 = squaredNorm (vec_minus a b);
          gamma = alpha1 + alpha2;
          p = gaussian_product_center alpha1 a alpha2 b;
          pre = (pi / gamma) powr 1.5 * exp (- alpha1 * alpha2 * rab2 / gamma);
          wx = overlap_1D l1 l2 (vec_at p 0 - vec_at a 0) (vec_at p 0 - vec_at b 0) gamma;
          wy = overlap_1D m1 m2 (vec_at p 1 - vec_at a 1) (vec_at p 1 - vec_at b 1) gamma;
          wz = overlap_1D n1 n2 (vec_at p 2 - vec_at a 2) (vec_at p 2 - vec_at b 2) gamma
      in pre * wx * wy * wz)"

definition overlap_gto :: "gto \<Rightarrow> gto \<Rightarrow> real" where
  "overlap_gto gto1 gto2 =
     overlap (gto_alpha gto1) (gto_l gto1) (gto_m gto1) (gto_n gto1) (gto_position gto1)
             (gto_alpha gto2) (gto_l gto2) (gto_m gto2) (gto_n gto2) (gto_position gto2)"

text \<open>
  \<open>Integrator::kinetic\<close> of two primitives.  The sum and the products of the angular
  momenta are \<open>unsigned int\<close> arithmetic, converted to double afterwards.
\<close>

definition kinetic_gto :: "gto \<Rightarrow> gto \<Rightarrow> real" where
  "kinetic_gto gto1 gto2 =
     (let S = overlap (gto_alpha gto1) (gto_l gto1) (gto_m gto1) (gto_n gto1) (gto_position gto1)
                (gto_alpha gto2);
          b = gto_position gto2;
          l2 = gto_l gto2; m2 = gto_m gto2; n2 = gto_n gto2;
          term0 = gto_alpha gto2 * (2 * real (unat (l2 + m2 + n2)) + 3) * overlap_gto gto1 gto2;
          term1 = - 2 * gto_alpha gto2 powi 2 *
                    (S (l2 + 2) m2 n2 b + S l2 (m2 + 2) n2 b + S l2 m2 (n2 + 2) b);
          term2 = - 0.5 * (real (unat (l2 * (l2 - 1))) * S (l2 - 2) m2 n2 b +
                           real (unat (m2 * (m2 - 1))) * S l2 (m2 - 2) n2 b +
                           real (unat (n2 * (n2 - 1))) * S l2 m2 (n2 - 2) b)
      in term0 + term1 + term2)"


subsection \<open>Derivatives towards a nuclear coordinate\<close>

text \<open>
  The derivative of a primitive towards the coordinate \<open>coord\<close> (0, 1 or 2) of its
  centre raises and lowers the angular momentum in that direction; \<open>gto_ang\<close> is the
  array of the three angular momenta.
\<close>

definition overlap_deriv_gto :: "gto \<Rightarrow> gto \<Rightarrow> nat \<Rightarrow> real" where
  "overlap_deriv_gto gto1 gto2 coord =
     (let gto_ang = [gto_l gto1, gto_m gto1, gto_n gto1];
          S = (\<lambda>ang. overlap (gto_alpha gto1) (ang ! 0) (ang ! 1) (ang ! 2) (gto_position gto1)
                 (gto_alpha gto2) (gto_l gto2) (gto_m gto2) (gto_n gto2) (gto_position gto2))
      in if gto_ang ! coord \<noteq> 0 then
           (let ang1 = gto_ang[coord := gto_ang ! coord + 1];
                term_plus = S ang1;
                ang2 = ang1[coord := ang1 ! coord - 2];
                term_min = S ang2;
                ang3 = ang2[coord := ang2 ! coord + 1]
            in 2 * gto_alpha gto1 * term_plus - real (unat (ang3 ! coord)) * term_min)
         else
           (let ang1 = gto_ang[coord := gto_ang ! coord + 1];
                term1 = S ang1
            in 2 * gto_alpha gto1 * term1))"

definition kinetic_deriv_gto ::
  "(real \<Rightarrow> uint \<Rightarrow> uint \<Rightarrow> uint \<Rightarrow> real) \<Rightarrow> gto \<Rightarrow> gto \<Rightarrow> nat \<Rightarrow> real" where
  "kinetic_deriv_gto nrm gto1 gto2 coord =
     (let gto_ang = [gto_l gto1, gto_m gto1, gto_n gto1];
          K = (\<lambda>ang. kinetic_gto
                 (GTO nrm (gto_c gto1) (vec_at (gto_position gto1) 0)
                    (vec_at (gto_position gto1) 1) (vec_at (gto_position gto1) 2)
                    (gto_alpha gto1) (ang ! 0) (ang ! 1) (ang ! 2))
                 gto2)
      in if gto_ang ! coord \<noteq> 0 then
           (let ang1 = gto_ang[coord := gto_ang ! coord + 1];
                term_plus = K ang1;
                ang2 = ang1[coord := ang1 ! coord - 2];
                term_min = K ang2;
                ang3 = ang2[coord := ang2 ! coord + 1]
            in 2 * gto_alpha gto1 * term_plus - real (unat (ang3 ! coord)) * term_min)
         else
           (let ang1 = gto_ang[coord := gto_ang ! coord + 1];
                term1 = K ang1
            in 2 * gto_alpha gto1 * term1))"

text \<open>
  The repulsion integral of four primitives needs the incomplete gamma function of
  gamma.cpp, which is not among the sources; it is the parameter \<open>repulsion_gto\<close>.
\<close>

definition repulsion_deriv_gto ::
  "(real \<Rightarrow> uint \<Rightarrow> uint \<Rightarrow> uint \<Rightarrow> real) \<Rightarrow> (gto \<Rightarrow> gto \<Rightarrow> gto \<Rightarrow> gto \<Rightarrow> real) \<Rightarrow>
   gto \<Rightarrow> gto \<Rightarrow> gto \<Rightarrow> gto \<Rightarrow> nat \<Rightarrow> real" where
  "repulsion_deriv_gto nrm repulsion_gto gto1 gto2 gto3 gto4 coord =
     (let gto_ang = [gto_l gto1, gto_m gto1, gto_n gto1];
          R = (\<lambda>ang. repulsion_gto
                 (GTO nrm (gto_c gto1) (vec_at (gto_position gto1) 0)
                    (vec_at (gto_position gto1) 1) (vec_at (gto_position gto1) 2)
                    (gto_alpha gto1) (ang ! 0) (ang ! 1) (ang ! 2))
                 gto2 gto3 gto4)
      in if gto_ang ! coord \<noteq> 0 then
           (let ang1 = gto_ang[coord := gto_ang ! coord + 1];
                term_plus = R ang1;
                ang2 = ang1[coord := ang1 ! coord - 2];
                term_min = R ang2;
                ang3 = ang2[coord := ang2 ! coord + 1]
            in 2 * gto_alpha gto1 * term_plus - real (unat (ang3 ! coord)) * term_min)
         else
           (let ang1 = gto_ang[coord := gto_ang ! coord + 1];
                term = R ang1
            in 2 * gto_alpha gto1 * term))"

text \<open>
  The test \<open>(cgf.get_r() - nucleus).squaredNorm() < 0.0001\<close> that decides whether a
  contracted function is attached to the nucleus of the derivative.
\<close>

definition attached :: "cgf \<Rightarrow> vec3 \<Rightarrow> bool" where
  "attached c nucleus \<longleftrightarrow> squaredNorm (vec_minus (cgf_r c) nucleus) < 0.0001"

definition overlap_deriv_cgf :: "cgf \<Rightarrow> cgf \<Rightarrow> vec3 \<Rightarrow> nat \<Rightarrow> real" where
  "overlap_deriv_cgf cgf1 cgf2 nucleus coord =
     (let cgf1_nuc = attached cgf1 nucleus;
          cgf2_nuc = attached cgf2 nucleus
      in if cgf1_nuc = cgf2_nuc then 0
         else (\<Sum>k\<leftarrow>[0..<cgf_size cgf1]. \<Sum>l\<leftarrow>[0..<cgf_size cgf2].
                 (let t1 = (if cgf1_nuc
                            then overlap_deriv_gto (get_gto cgf1 k) (get_gto cgf2 l) coord else 0);
                      t2 = (if cgf2_nuc
                            then overlap_deriv_gto (get_gto cgf2 l) (get_gto cgf1 k) coord else 0)
                  in get_norm_gto cgf1 k * get_norm_gto cgf2 l *
                     get_coefficient_gto cgf1 k * get_coefficient_gto cgf2 l * (t1 + t2))))"

definition kinetic_deriv_cgf ::
  "(real \<Rightarrow> uint \<Rightarrow> uint \<Rightarrow> uint \<Rightarrow> real) \<Rightarrow> cgf \<Rightarrow> cgf \<Rightarrow> vec3 \<Rightarrow> nat \<Rightarrow> real" where
  "kinetic_deriv_cgf nrm cgf1 cgf2 nucleus coord =
     (let cgf1_nuc = attached cgf1 nucleus;
          cgf2_nuc = attached cgf2 nucleus
      in if cgf1_nuc = cgf2_nuc then 0
         else (\<Sum>k\<leftarrow>[0..<cgf_size cgf1]. \<Sum>l\<leftarrow>[0..<cgf_size cgf2].
                 (let t1 = (if cgf1_nuc
                            then kinetic_deriv_gto nrm (get_gto cgf1 k) (get_gto cgf2 l) coord
                            else 0);
                      t2 = (if cgf2_nuc
                            then kinetic_deriv_gto nrm (get_gto cgf2 l) (get_gto cgf1 k) coord
                            else 0)
                  in get_norm_gto cgf1 k * get_norm_gto cgf2 l *
                     get_coefficient_gto cgf1 k * get_coefficient_gto cgf2 l * (t1 + t2))))"

definition repulsion_deriv_cgf ::
  "(real \<Rightarrow> uint \<Rightarrow> uint \<Rightarrow> uint \<Rightarrow> real) \<Rightarrow> (gto \<Rightarrow> gto \<Rightarrow> gto \<Rightarrow> gto \<Rightarrow> real) \<Rightarrow>
   cgf \<Rightarrow> cgf \<Rightarrow> cgf \<Rightarrow> cgf \<Rightarrow> vec3 \<Rightarrow> nat \<Rightarrow> real" where
  "repulsion_deriv_cgf nrm repulsion_gto cgf1 cgf2 cgf3 cgf4 nucleus coord =
     (let cgf1_nuc = attached cgf1 nucleus;
          cgf2_nuc = attached cgf2 nucleus;
          cgf3_nuc = attached cgf3 nucleus;
          cgf4_nuc = attached cgf4 nucleus
      in if cgf1_nuc = cgf2_nuc \<and> cgf2_nuc = cgf3_nuc \<and> cgf3_nuc = cgf4_nuc then 0
         else (\<Sum>i\<leftarrow>[0..<cgf_size cgf1]. \<Sum>j\<leftarrow>[0..<cgf_size cgf2].
               \<Sum>k\<leftarrow>[0..<cgf_size cgf3]. \<Sum>l\<leftarrow>[0..<cgf_size cgf4].
                 (let pre = get_coefficient_gto cgf1 i * get_coefficient_gto cgf2 j *
                            get_coefficient_gto cgf3 k * get_coefficient_gto cgf4 l;
                      n1 = get_norm_gto cgf1 i; n2 = get_norm_gto cgf2 j;
                      n3 = get_norm_gto cgf3 k; n4 = get_norm_gto cgf4 l;
                      t1 = (if cgf1_nuc
                            then repulsion_deriv_gto nrm repulsion_gto (get_gto cgf1 i)
                                   (get_gto cgf2 j) (get_gto cgf3 k) (get_gto cgf4 l) coord
                            else 0);
                      t2 = (if cgf2_nuc
                            then repulsion_deriv_gto nrm repulsion_gto (get_gto cgf2 j)
                                   (get_gto cgf1 i) (get_gto cgf3 k) (get_gto cgf4 l) coord
                            else 0);
                      t3 = (if cgf3_nuc
                            then repulsion_deriv_gto nrm repulsion_gto (get_gto cgf3 k)
                                   (get_gto cgf4 l) (get_gto cgf1 i) (get_gto cgf2 j) coord
                            else 0);
                      t4 = (if cgf4_nuc
                            then repulsion_deriv_gto nrm repulsion_gto (get_gto cgf4 l)
                                   (get_gto cgf3 k) (get_gto cgf1 i) (get_gto cgf2 j) coord
                            else 0)
                  in pre * n1 * n2 * n3 * n4 * (t1 + t2 + t3 + t4))))"

section \<open>Properties of teindex\<close>

lemma swap_max_min:
  "(if a < b then (b, a) else (a, b)) = (max a b, min a (b::'a::linorder))"
  by (auto simp: max_def min_def)

lemma teindex_compound:
  "teindex i j k l =
     compound (max (compound (max i j) (min i j)) (compound (max k l) (min k l)))
              (min (compound (max i j) (min i j)) (compound (max k l) (min k l)))"
  unfolding teindex_def compound_def [symmetric] swap_max_min Let_def prod.case
  by (rule refl)

lemma teindex_sym_bra: "teindex j i k l = teindex i j k l"
  by (simp only: teindex_compound max.commute [of j i] min.commute [of j i])

lemma teindex_sym_ket: "teindex i j l k = teindex i j k l"
  by (simp only: teindex_compound max.commute [of l k] min.commute [of l k])

lemma teindex_sym_pair: "teindex k l i j = teindex i j k l"
  by (simp only: teindex_compound
        max.commute [of "compound (max k l) (min k l)"]
        min.commute [of "compound (max k l) (min k l)"])

text \<open>
  Claim C1.  For all indices, also where the 64-bit products wrap, \<open>teindex\<close> gives the
  eight quadruples related by exchanging \<open>i\<close> with \<open>j\<close>, \<open>k\<close> with \<open>l\<close> and the pair
  \<open>(i, j)\<close> with \<open>(k, l)\<close> the same key, and that key is built as the specification
  says: the larger of \<open>i, j\<close> and of \<open>k, l\<close> first, the compound indices
  \<open>ij = i(i+1)/2 + j\<close> and \<open>kl = k(k+1)/2 + l\<close>, the larger of these first, and
  \<open>ij(ij+1)/2 + kl\<close>.
\<close>

theorem teindex_eightfold:
  "teindex j i k l = teindex i j k l \<and>
   teindex i j l k = teindex i j k l \<and>
   teindex j i l k = teindex i j k l \<and>
   teindex k l i j = teindex i j k l \<and>
   teindex l k i j = teindex i j k l \<and>
   teindex k l j i = teindex i j k l \<and>
   teindex l k j i = teindex i j k l \<and>
   teindex i j k l =
     (let a = max i j; b = min i j; c = max k l; d = min k l;
          ij = a * (a + 1) div 2 + b; kl = c * (c + 1) div 2 + d;
          p = max ij kl
      in p * (p + 1) div 2 + min ij kl)"
proof -
  have 1: "teindex j i l k = teindex i j k l"
    by (simp only: teindex_sym_bra teindex_sym_ket)
  have 2: "teindex l k i j = teindex i j k l"
    by (simp only: teindex_sym_bra teindex_sym_pair)
  have 3: "teindex k l j i = teindex i j k l"
    by (simp only: teindex_sym_ket teindex_sym_pair)
  have 4: "teindex l k j i = teindex i j k l"
    by (simp only: teindex_sym_bra teindex_sym_ket teindex_sym_pair)
  have 5: "teindex i j k l =
     (let a = max i j; b = min i j; c = max k l; d = min k l;
          ij = a * (a + 1) div 2 + b; kl = c * (c + 1) div 2 + d;
          p = max ij kl
      in p * (p + 1) div 2 + min ij kl)"
    by (simp only: teindex_compound compound_def Let_def)
  show ?thesis
    using teindex_sym_bra teindex_sym_ket teindex_sym_pair 1 2 3 4 5 by blast
qed

section \<open>The job list\<close>

subsection \<open>The four nested loops as one loop over the quadruples\<close>

lemma for_each_append:
  "for_each (xs @ ys) body s =
     (case for_each xs body s of Inl e \<Rightarrow> Inl e | Inr s' \<Rightarrow> for_each ys body s')"
  by (induction xs arbitrary: s) (auto split: sum.splits)

lemma for_each_map: "for_each (map g xs) body s = for_each xs (\<lambda>x. body (g x)) s"
  by (induction xs arbitrary: s) (auto split: sum.splits)

lemma for_each_product:
  "for_each xs (\<lambda>x. for_each ys (f x)) s = for_each (List.product xs ys) (\<lambda>(x, y). f x y) s"
  by (induction xs arbitrary: s) (auto simp: for_each_append for_each_map split: sum.splits)

lemma for_each_product_fun:
  "for_each xs (\<lambda>x. for_each ys (f x)) = for_each (List.product xs ys) (\<lambda>(x, y). f x y)"
  by (rule ext) (rule for_each_product)

lemma for_each_product4:
  "for_each xs (\<lambda>i. for_each ys (\<lambda>j. for_each zs (\<lambda>k. for_each ws (\<lambda>l. f (i, j, k, l)))))
     = for_each (List.product xs (List.product ys (List.product zs ws))) f"
proof -
  have "for_each xs (\<lambda>i. for_each ys (\<lambda>j. for_each zs (\<lambda>k. for_each ws (\<lambda>l. f (i, j, k, l)))))
     = for_each xs (\<lambda>i. for_each ys (\<lambda>j. for_each (List.product zs ws) (\<lambda>(k, l). f (i, j, k, l))))"
    by (simp only: for_each_product_fun [where f = "\<lambda>k l. f (i, j, k, l)" for i j])
  also have "\<dots> = for_each xs (\<lambda>i. for_each (List.product ys (List.product zs ws))
                         (\<lambda>(j, k, l). f (i, j, k, l)))"
    by (simp only: for_each_product_fun [where f = "\<lambda>j (k, l). f (i, j, k, l)" for i])
  also have "\<dots> = for_each (List.product xs (List.product ys (List.product zs ws)))
                         (\<lambda>(i, j, k, l). f (i, j, k, l))"
    by (simp only: for_each_product_fun [where f = "\<lambda>i (j, k, l). f (i, j, k, l)"])
  also have "(\<lambda>(i, j, k, l). f (i, j, k, l)) = f"
    by (simp add: fun_eq_iff)
  finally show ?thesis .
qed

lemma build_jobs_flat:
  "build_jobs sz =
     for_each (quadruples sz) quad_step (replicate (unat (tedouble_size sz)) (- 1), [])"
proof -
  have "(\<lambda>i. for_each (index_range sz) (\<lambda>j.
         let ij = i * (i + 1) div 2 + j in
         for_each (index_range sz) (\<lambda>k.
           for_each (index_range sz) (\<lambda>l. job_step i j ij k l))))
      = (\<lambda>i. for_each (index_range sz) (\<lambda>j. for_each (index_range sz) (\<lambda>k.
           for_each (index_range sz) (\<lambda>l. quad_step (i, j, k, l)))))"
    by (simp add: quad_step_def compound_def Let_def)
  then show ?thesis
    unfolding build_jobs_def quadruples_def
    by (simp only: for_each_product4)
qed

subsection \<open>One step of the loop and its invariant\<close>

lemma quad_step_cases:
  "quad_step q (ted, jobs) =
     (if scheduled q then
        (if length ted \<le> unat (key q) then Inl Illegal_array_position
         else if ted ! unat (key q) < 0
           then Inr (ted[unat (key q) := 1], jobs @ [(key q, q)])
           else Inr (ted, jobs))
      else Inr (ted, jobs))"
  by (cases q) (simp add: quad_step_def job_step_def scheduled_def key_def compound_def Let_def)

lemma quad_step_Inl:
  "quad_step q (ted, jobs) = Inl e \<longleftrightarrow> scheduled q \<and> length ted \<le> unat (key q)"
  by (cases e) (simp add: quad_step_cases)

lemma quad_step_Inr:
  assumes inv: "jobs_inv n Q (ted, jobs)" and step: "quad_step q (ted, jobs) = Inr (ted', jobs')"
    and q: "q \<in> Q"
  shows "jobs_inv n Q (ted', jobs') \<and>
         job_idx ` set jobs' = job_idx ` set jobs \<union> (if scheduled q then {key q} else {})"
proof (cases "scheduled q \<and> ted ! unat (key q) < 0")
  case False
  have same: "ted' = ted" "jobs' = jobs"
    using step False by (auto simp: quad_step_cases split: if_splits)
  have "scheduled q \<Longrightarrow> key q \<in> job_idx ` set jobs"
  proof -
    assume s: "scheduled q"
    then have lt: "unat (key q) < n" and nn: "\<not> ted ! unat (key q) < 0"
      using step False inv by (auto simp: quad_step_cases jobs_inv_def split: if_splits)
    then have "unat (key q) \<in> unat ` job_idx ` set jobs"
      using inv by (auto simp: jobs_inv_def)
    then obtain jb where jb: "jb \<in> set jobs" "unat (key q) = unat (job_idx jb)"
      by auto
    then have "key q = job_idx jb" by (simp add: word_unat_eq_iff)
    then show ?thesis using jb by blast
  qed
  then show ?thesis using inv same by auto
next
  case True
  then have lt: "unat (key q) < n"
    using step inv by (auto simp: quad_step_cases jobs_inv_def split: if_splits)
  have new: "ted' = ted[unat (key q) := 1]" "jobs' = jobs @ [(key q, q)]"
    using step True lt inv by (auto simp: quad_step_cases jobs_inv_def split: if_splits)
  have "unat (key q) \<notin> unat ` job_idx ` set jobs"
    using True lt inv by (auto simp: jobs_inv_def)
  then have fresh: "key q \<notin> job_idx ` set jobs" by blast
  have len: "length ted = n" using inv by (simp add: jobs_inv_def)
  have old: "\<forall>x<n. ted ! x = - 1 \<or> ted ! x = 1"
    using inv by (simp add: jobs_inv_def)
  have 1: "\<forall>x<n. ted' ! x = - 1 \<or> ted' ! x = 1"
  proof (intro allI impI)
    fix x assume x: "x < n"
    show "ted' ! x = - 1 \<or> ted' ! x = 1"
      using old x len by (cases "x = unat (key q)") (simp_all add: new)
  qed
  have 2: "\<forall>x<n. ted' ! x < 0 \<longleftrightarrow> x \<notin> unat ` job_idx ` set jobs'"
  proof (intro allI impI)
    fix x assume x: "x < n"
    show "ted' ! x < 0 \<longleftrightarrow> x \<notin> unat ` job_idx ` set jobs'"
    proof (cases "x = unat (key q)")
      case True
      then show ?thesis using x len by (simp add: new job_idx_def)
    next
      case False
      moreover have "ted ! x < 0 \<longleftrightarrow> x \<notin> unat ` job_idx ` set jobs"
        using inv x by (simp add: jobs_inv_def)
      ultimately show ?thesis using x len by (auto simp: new job_idx_def)
    qed
  qed
  have 3: "distinct (map job_idx jobs')"
    using inv fresh by (auto simp: new jobs_inv_def job_idx_def)
  have 4: "\<forall>jb\<in>set jobs'. job_idx jb = key (snd jb) \<and> scheduled (snd jb) \<and> snd jb \<in> Q \<and>
           unat (job_idx jb) < n"
    using inv True lt q by (auto simp: new jobs_inv_def job_idx_def)
  have 5: "job_idx ` set jobs' = job_idx ` set jobs \<union> (if scheduled q then {key q} else {})"
    using True by (auto simp: new job_idx_def)
  have len': "length ted' = n" by (simp add: new len)
  show ?thesis unfolding jobs_inv_def prod.case using 1 2 3 4 5 len' by blast
qed

lemma for_each_quad_Inr:
  assumes "jobs_inv n Q st" "for_each qs quad_step st = Inr st'" "set qs \<subseteq> Q"
  shows "jobs_inv n Q st' \<and>
         job_idx ` set (snd st') = job_idx ` set (snd st) \<union> key ` {q \<in> set qs. scheduled q}"
  using assms
proof (induction qs arbitrary: st)
  case Nil
  then show ?case by simp
next
  case (Cons q qs)
  obtain ted jobs where st: "st = (ted, jobs)" by (cases st)
  from Cons.prems(2) obtain st1 where s1: "quad_step q st = Inr st1"
    and rest: "for_each qs quad_step st1 = Inr st'"
    by (auto split: sum.splits)
  obtain ted1 jobs1 where st1: "st1 = (ted1, jobs1)" by (cases st1)
  have a: "jobs_inv n Q (ted1, jobs1) \<and>
         job_idx ` set jobs1 = job_idx ` set jobs \<union> (if scheduled q then {key q} else {})"
    using quad_step_Inr [of n Q ted jobs q ted1 jobs1] Cons.prems s1 st st1 by simp
  have b: "jobs_inv n Q st' \<and>
         job_idx ` set (snd st') = job_idx ` set (snd st1) \<union> key ` {q \<in> set qs. scheduled q}"
    using Cons.IH [of st1] a rest Cons.prems(3) st1 by simp
  show ?case using a b st st1 by auto
qed

lemma for_each_quad_length:
  "for_each qs quad_step st = Inr st' \<Longrightarrow> length (fst st') = length (fst st)"
proof (induction qs arbitrary: st)
  case Nil
  then show ?case by simp
next
  case (Cons q qs)
  obtain ted jobs where st: "st = (ted, jobs)" by (cases st)
  from Cons.prems obtain st1 where s1: "quad_step q st = Inr st1"
    and rest: "for_each qs quad_step st1 = Inr st'"
    by (auto split: sum.splits)
  have "length (fst st1) = length ted"
    using s1 st by (auto simp: quad_step_cases split: if_splits)
  then show ?case using Cons.IH [OF rest] st by simp
qed

lemma for_each_quad_Inl:
  "(\<exists>e. for_each qs quad_step st = Inl e) \<longleftrightarrow>
     (\<exists>q\<in>set qs. scheduled q \<and> length (fst st) \<le> unat (key q))"
proof (induction qs arbitrary: st)
  case Nil
  then show ?case by simp
next
  case (Cons q qs)
  obtain ted jobs where st: "st = (ted, jobs)" by (cases st)
  show ?case
  proof (cases "quad_step q st")
    case (Inl e)
    then have "for_each (q # qs) quad_step st = Inl e" by simp
    moreover have "scheduled q \<and> length ted \<le> unat (key q)"
      using Inl st quad_step_Inl [of q ted jobs e] by simp
    ultimately show ?thesis using st by auto
  next
    case (Inr st1)
    then have len: "length (fst st1) = length ted"
      using st by (auto simp: quad_step_cases split: if_splits)
    have no: "\<not> (scheduled q \<and> length ted \<le> unat (key q))"
      using Inr st quad_step_Inl [of q ted jobs] by auto
    show ?thesis using Inr Cons.IH [of st1] len no st by auto
  qed
qed

subsection \<open>Compound indices where nothing wraps\<close>

lemma tri_Suc: "tri (Suc n) = tri n + Suc n"
  by (simp add: tri_def)

lemma tri_mono: "a \<le> b \<Longrightarrow> tri a \<le> tri b"
  unfolding tri_def by (intro div_le_mono mult_le_mono) simp_all

lemma tri_strict: "a < b \<Longrightarrow> tri a + a < tri b"
proof -
  assume "a < b"
  then have "Suc a \<le> b" by simp
  then have "tri (Suc a) \<le> tri b" by (rule tri_mono)
  then show ?thesis by (simp add: tri_Suc)
qed

lemma tri_inj:
  assumes "tri a + b = tri a' + b'" "b \<le> a" "b' \<le> a'"
  shows "a = a' \<and> b = b'"
proof -
  have "\<not> a < a'" using tri_strict [of a a'] assms by linarith
  moreover have "\<not> a' < a" using tri_strict [of a' a] assms by linarith
  ultimately have "a = a'" by simp
  with assms show ?thesis by simp
qed

lemma tri_surj: "\<exists>a b. b \<le> a \<and> n = tri a + b"
proof (induction n)
  case 0
  have "0 \<le> (0::nat) \<and> (0::nat) = tri 0 + 0" by (simp add: tri_def)
  then show ?case by blast
next
  case (Suc n)
  then obtain a b where ab: "b \<le> a" "n = tri a + b" by blast
  show ?case
  proof (cases "b < a")
    case True
    then have "Suc b \<le> a \<and> Suc n = tri a + Suc b" using ab by simp
    then show ?thesis by blast
  next
    case False
    then have "b = a" using ab by simp
    then have "0 \<le> Suc a \<and> Suc n = tri (Suc a) + 0" using ab by (simp add: tri_Suc)
    then show ?thesis by blast
  qed
qed

lemma tri_32: "(n::nat) < 2 ^ 32 \<Longrightarrow> n * (n + 1) < 2 ^ 64"
proof -
  assume "n < 2 ^ 32"
  then have "n \<le> 2 ^ 32 - 1" "n + 1 \<le> 2 ^ 32" by simp_all
  then have "n * (n + 1) \<le> (2 ^ 32 - 1) * 2 ^ 32" by (rule mult_le_mono)
  then show ?thesis by simp
qed

lemma unat_compound:
  assumes "unat a < 2 ^ 32" "unat b < 2 ^ 32"
  shows "unat (compound a b) = tri (unat a) + unat b"
proof -
  have a1: "unat (a + 1) = unat a + 1"
    using assms(1) by (simp add: unat_add_lem [THEN iffD1])
  have m: "unat a * (unat a + 1) < 2 ^ 64" using assms(1) by (rule tri_32)
  have "unat (a * (a + 1)) = unat a * unat (a + 1)"
    using m a1 by (simp add: unat_mult_lem [THEN iffD1])
  then have d: "unat (a * (a + 1) div 2) = tri (unat a)"
    by (simp add: unat_div a1 tri_def)
  have "tri (unat a) < 2 ^ 63" using m by (simp add: tri_def)
  then have "tri (unat a) + unat b < 2 ^ 64" using assms(2) by simp
  then show ?thesis
    by (simp add: compound_def unat_add_lem [THEN iffD1] d)
qed

text \<open>The largest compound index of a basis set of at most 92681 functions fits 32 bits.\<close>

lemma pair_bound:
  assumes "a \<le> 92680" "b \<le> 92680"
  shows "tri a + b \<le> 4294930220"
proof -
  have "tri a \<le> tri 92680" using assms(1) by (rule tri_mono)
  moreover have "tri 92680 = 4294837540" by (simp add: tri_def)
  ultimately show ?thesis using assms(2) by simp
qed

lemma unat_compound_small:
  assumes "unat a \<le> 92680" "unat b \<le> 92680"
  shows "unat (compound a b) = tri (unat a) + unat b" "unat (compound a b) < 2 ^ 32"
proof -
  show 1: "unat (compound a b) = tri (unat a) + unat b"
    using assms by (intro unat_compound) simp_all
  show "unat (compound a b) < 2 ^ 32"
    using pair_bound [OF assms] 1 by simp
qed

lemma unat_max: "unat (max a b) = max (unat a) (unat b)"
  by (simp add: max_def word_le_nat_alt)

lemma unat_min: "unat (min a b) = min (unat a) (unat b)"
  by (simp add: min_def word_le_nat_alt)

text \<open>The key over the natural numbers.\<close>

lemma unat_teindex:
  assumes "unat i \<le> 92680" "unat j \<le> 92680" "unat k \<le> 92680" "unat l \<le> 92680"
  shows "unat (teindex i j k l) =
     tri (max (tri (max (unat i) (unat j)) + min (unat i) (unat j))
              (tri (max (unat k) (unat l)) + min (unat k) (unat l))) +
     min (tri (max (unat i) (unat j)) + min (unat i) (unat j))
         (tri (max (unat k) (unat l)) + min (unat k) (unat l))"
proof -
  have ij: "unat (max i j) \<le> 92680" "unat (min i j) \<le> 92680"
    using assms by (simp_all add: unat_max unat_min)
  have kl: "unat (max k l) \<le> 92680" "unat (min k l) \<le> 92680"
    using assms by (simp_all add: unat_max unat_min)
  note p = unat_compound_small [OF ij]
  note q = unat_compound_small [OF kl]
  have "unat (max (compound (max i j) (min i j)) (compound (max k l) (min k l))) < 2 ^ 32"
       "unat (min (compound (max i j) (min i j)) (compound (max k l) (min k l))) < 2 ^ 32"
    using p(2) q(2) by (simp_all add: unat_max unat_min)
  then show ?thesis
    by (simp add: teindex_compound unat_compound unat_max unat_min p(1) q(1))
qed

lemma tri_pair_mono:
  assumes "a \<le> n" "b \<le> n"
  shows "tri (max a b) + min a b \<le> tri n + n"
proof -
  have "tri (max a b) \<le> tri n" using assms by (intro tri_mono) simp
  moreover have "min a b \<le> n" using assms by simp
  ultimately show ?thesis by linarith
qed

subsection \<open>The quadruples of a basis set\<close>

lemma index_range_iff: "i \<in> set (index_range sz) \<longleftrightarrow> i < sz"
proof
  assume "i \<in> set (index_range sz)"
  then obtain n where n: "n < unat sz" "i = of_nat n" by (auto simp: index_range_def)
  have "unat sz < 2 ^ 64" using unsigned_less [of sz] by simp
  then have "n < 2 ^ LENGTH(64)" using n(1) by simp
  then have "unat (of_nat n :: size_t) = n" by (intro of_nat_inverse) simp_all
  then show "i < sz" using n by (simp add: word_less_nat_alt)
next
  assume "i < sz"
  then have "unat i < unat sz" by (simp add: word_less_nat_alt)
  moreover have "i = of_nat (unat i)" by simp
  ultimately show "i \<in> set (index_range sz)"
    unfolding index_range_def by (metis atLeast0LessThan imageI lessThan_iff set_map set_upt)
qed

lemma quadruples_iff:
  "(i, j, k, l) \<in> set (quadruples sz) \<longleftrightarrow> i < sz \<and> j < sz \<and> k < sz \<and> l < sz"
  by (simp add: quadruples_def index_range_iff)

subsection \<open>What the job loop returns\<close>

lemma jobs_inv_init: "jobs_inv n Q (replicate n (- 1), [])"
  by (simp add: jobs_inv_def)

lemma scheduled_keys: "key ` {q \<in> set (quadruples sz). scheduled q} = all_keys sz"
proof
  show "key ` {q \<in> set (quadruples sz). scheduled q} \<subseteq> all_keys sz"
    by (auto simp: all_keys_def)
next
  show "all_keys sz \<subseteq> key ` {q \<in> set (quadruples sz). scheduled q}"
  proof
    fix x assume "x \<in> all_keys sz"
    then obtain i j k l where q: "(i, j, k, l) \<in> set (quadruples sz)" "x = teindex i j k l"
      by (auto simp: all_keys_def key_def)
    show "x \<in> key ` {q \<in> set (quadruples sz). scheduled q}"
    proof (cases "compound i j \<le> compound k l")
      case True
      then have "(i, j, k, l) \<in> {q \<in> set (quadruples sz). scheduled q}"
        using q by (simp add: scheduled_def)
      moreover have "x = key (i, j, k, l)" using q by (simp add: key_def)
      ultimately show ?thesis by blast
    next
      case False
      then have "(k, l, i, j) \<in> {q \<in> set (quadruples sz). scheduled q}"
        using q by (simp add: scheduled_def quadruples_iff)
      moreover have "x = key (k, l, i, j)" using q by (simp add: key_def teindex_sym_pair)
      ultimately show ?thesis by blast
    qed
  qed
qed

lemma build_jobs_Inr:
  assumes "build_jobs sz = Inr (ted, jobs)"
  shows "jobs_inv (unat (tedouble_size sz)) (set (quadruples sz)) (ted, jobs)"
    and "job_idx ` set jobs = all_keys sz"
proof -
  have "jobs_inv (unat (tedouble_size sz)) (set (quadruples sz)) (ted, jobs) \<and>
        job_idx ` set (snd (ted, jobs)) =
          job_idx ` set (snd (replicate (unat (tedouble_size sz)) (- 1 :: real), [] :: job list))
            \<union> key ` {q \<in> set (quadruples sz). scheduled q}"
    using assms unfolding build_jobs_flat
    by (intro for_each_quad_Inr) (simp_all add: jobs_inv_init)
  then show "jobs_inv (unat (tedouble_size sz)) (set (quadruples sz)) (ted, jobs)"
    and "job_idx ` set jobs = all_keys sz"
    by (simp_all add: scheduled_keys)
qed

lemma build_jobs_Inl:
  "(\<exists>e. build_jobs sz = Inl e) \<longleftrightarrow>
     (\<exists>q\<in>set (quadruples sz). scheduled q \<and> unat (tedouble_size sz) \<le> unat (key q))"
  unfolding build_jobs_flat by (simp add: for_each_quad_Inl)

lemma build_jobs_length:
  "build_jobs sz = Inr (ted, jobs) \<Longrightarrow> length ted = unat (tedouble_size sz)"
  using build_jobs_Inr(1) [of sz ted jobs] by (simp add: jobs_inv_def)

subsection \<open>Up to 92681 basis functions the loop does not throw\<close>

text \<open>The bounds for a basis set of at most 92681 functions.\<close>

lemma unat_pred:
  assumes "1 \<le> unat sz"
  shows "unat (sz - 1) = unat sz - 1"
proof -
  have "sz \<noteq> 0" using assms by auto
  then show ?thesis by (simp add: unat_minus_one)
qed

lemma top_pair_bound: "n \<le> 92681 \<Longrightarrow> top_pair n \<le> 4294930220"
  unfolding top_pair_def by (intro pair_bound) simp_all

lemma unat_top_key:
  assumes "1 \<le> unat sz" "unat sz \<le> 92681"
  shows "unat (teindex (sz - 1) (sz - 1) (sz - 1) (sz - 1))
           = tri (top_pair (unat sz)) + top_pair (unat sz)"
proof -
  have "unat (sz - 1) \<le> 92680" using assms by (simp add: unat_pred)
  then show ?thesis
    by (simp add: unat_teindex unat_pred [OF assms(1)] top_pair_def)
qed

lemma top_key_bound:
  assumes "n \<le> 92681"
  shows "tri (top_pair n) + top_pair n < 2 ^ 63"
proof -
  have "top_pair n < 2 ^ 32" using top_pair_bound [OF assms] by simp
  then have "top_pair n * (top_pair n + 1) < 2 ^ 64" by (rule tri_32)
  then have "tri (top_pair n) < 2 ^ 63" by (simp add: tri_def)
  moreover have "tri (top_pair n) + top_pair n \<le> tri (top_pair n) + 4294930220"
    using top_pair_bound [OF assms] by simp
  moreover have "tri (top_pair n) \<le> tri 4294930220"
    using top_pair_bound [OF assms] by (rule tri_mono)
  moreover have "tri 4294930220 + 4294930220 < (2::nat) ^ 63" by (simp add: tri_def)
  ultimately show ?thesis by linarith
qed

lemma unat_tedouble_size:
  assumes "1 \<le> unat sz" "unat sz \<le> 92681"
  shows "unat (tedouble_size sz) = tri (top_pair (unat sz)) + top_pair (unat sz) + 1"
proof -
  have "tri (top_pair (unat sz)) + top_pair (unat sz) + 1 < 2 ^ 64"
    using top_key_bound [OF assms(2)] by simp
  then show ?thesis
    unfolding tedouble_size_def
    by (simp add: unat_add_lem [THEN iffD1] unat_top_key [OF assms])
qed

lemma key_le_top:
  assumes "1 \<le> unat sz" "unat sz \<le> 92681" "i < sz" "j < sz" "k < sz" "l < sz"
  shows "unat (teindex i j k l) \<le> tri (top_pair (unat sz)) + top_pair (unat sz)"
proof -
  let ?n = "unat sz - 1"
  have b: "unat i \<le> ?n" "unat j \<le> ?n" "unat k \<le> ?n" "unat l \<le> ?n"
    using assms(3-6) by (simp_all add: word_less_nat_alt)
  then have s: "unat i \<le> 92680" "unat j \<le> 92680" "unat k \<le> 92680" "unat l \<le> 92680"
    using assms(2) by simp_all
  have p: "tri (max (unat i) (unat j)) + min (unat i) (unat j) \<le> top_pair (unat sz)"
    unfolding top_pair_def using b by (intro tri_pair_mono)
  have q: "tri (max (unat k) (unat l)) + min (unat k) (unat l) \<le> top_pair (unat sz)"
    unfolding top_pair_def using b by (intro tri_pair_mono)
  show ?thesis
    unfolding unat_teindex [OF s] using p q by (intro tri_pair_mono)
qed

lemma build_jobs_total:
  assumes "unat sz \<le> 92681"
  shows "\<exists>ted jobs. build_jobs sz = Inr (ted, jobs)"
proof -
  have "\<not> (\<exists>q\<in>set (quadruples sz). scheduled q \<and> unat (tedouble_size sz) \<le> unat (key q))"
  proof
    assume "\<exists>q\<in>set (quadruples sz). scheduled q \<and> unat (tedouble_size sz) \<le> unat (key q)"
    then obtain i j k l where q: "(i, j, k, l) \<in> set (quadruples sz)"
      and big: "unat (tedouble_size sz) \<le> unat (teindex i j k l)"
      by (auto simp: key_def)
    then have lt: "i < sz" "j < sz" "k < sz" "l < sz" by (simp_all add: quadruples_iff)
    then have one: "1 \<le> unat sz" by (simp add: word_less_nat_alt)
    show False
      using key_le_top [OF one assms lt] unat_tedouble_size [OF one assms] big by simp
  qed
  then have "\<not> (\<exists>e. build_jobs sz = Inl e)" by (simp add: build_jobs_Inl)
  then show ?thesis by (cases "build_jobs sz") auto
qed

text \<open>
  Claim C2.  Whenever the job list is built, no two jobs have the same key, the keys of
  the jobs are exactly the keys \<open>teindex\<close> gives the quadruples of the basis set, and
  the number of jobs is the number of distinct keys.  This holds for every size, also
  where the 64-bit arithmetic wraps; for up to 92681 basis functions the list is built.
\<close>

theorem job_list_one_per_key:
  "(unat sz \<le> 92681 \<longrightarrow> (\<exists>ted jobs. build_jobs sz = Inr (ted, jobs))) \<and>
   (build_jobs sz = Inr (tedouble, jobs) \<longrightarrow>
      distinct (map job_idx jobs) \<and> job_idx ` set jobs = all_keys sz \<and>
      length jobs = card (all_keys sz))"
proof (intro conjI impI)
  assume "unat sz \<le> 92681"
  then show "\<exists>ted jobs. build_jobs sz = Inr (ted, jobs)" by (rule build_jobs_total)
next
  assume b: "build_jobs sz = Inr (tedouble, jobs)"
  show d: "distinct (map job_idx jobs)"
    using build_jobs_Inr(1) [OF b] by (simp add: jobs_inv_def)
  show k: "job_idx ` set jobs = all_keys sz" by (rule build_jobs_Inr(2) [OF b])
  have "card (set (map job_idx jobs)) = length (map job_idx jobs)"
    using d by (rule distinct_card)
  then show "length jobs = card (all_keys sz)" using k by simp
qed

theorem job_list_one_per_key_witness:
  "unat (2 :: size_t) \<le> 92681 \<and>
   build_jobs 2 = Inr ([1, 1, 1, 1, 1, 1],
     [(0, 0, 0, 0, 0), (1, 0, 0, 0, 1), (3, 0, 0, 1, 1), (2, 0, 1, 0, 1), (4, 0, 1, 1, 1),
      (5, 1, 1, 1, 1)]) \<and>
   all_keys 2 = {0, 1, 2, 3, 4, 5} \<and> card (all_keys 2) = 6"
proof -
  have b: "build_jobs 2 = Inr ([1, 1, 1, 1, 1, 1],
     [(0, 0, 0, 0, 0), (1, 0, 0, 0, 1), (3, 0, 0, 1, 1), (2, 0, 1, 0, 1), (4, 0, 1, 1, 1),
      (5, 1, 1, 1, 1)])"
    by code_simp
  show ?thesis
    using b job_list_one_per_key [of 2 "[1, 1, 1, 1, 1, 1]"
      "[(0, 0, 0, 0, 0), (1, 0, 0, 0, 1), (3, 0, 0, 1, 1), (2, 0, 1, 0, 1), (4, 0, 1, 1, 1),
        (5, 1, 1, 1, 1)]"]
    by (auto simp: job_idx_def)
qed





subsection \<open>The empty basis set\<close>

lemma build_jobs_0: "build_jobs 0 = Inr ([], [])"
  by (simp add: build_jobs_def index_range_def tedouble_size_def teindex_def)

text \<open>
  Claim C10, as stated, fails: the wrapped size is not some other value, it is 0.
\<close>

theorem empty_basis_size_is_zero:
  "\<not> (tedouble_size 0 \<noteq> 0 \<and> tedouble_size 0 \<noteq> 1)"
  by (simp add: tedouble_size_def teindex_def)

text \<open>
  Claim C10, amended.  For an empty basis set \<open>sz - 1\<close> wraps to \<open>2^64 - 1\<close>; in
  \<open>teindex\<close> the products \<open>(2^64 - 1) * 2^64\<close> wrap to 0, the key is \<open>2^64 - 1\<close>, and
  adding 1 wraps to 0.  The requested length is 0, no loop body runs, and the call
  returns the empty vector.
\<close>

theorem empty_basis_returns_empty:
  "(0 :: size_t) - 1 = 18446744073709551615 \<and>
   teindex (0 - 1) (0 - 1) (0 - 1) (0 - 1) = 18446744073709551615 \<and>
   tedouble_size 0 = 0 \<and>
   evaluate_cgfs ovl kin nuc rep [] charges px py pz = Inr []"
  by (simp add: tedouble_size_def teindex_def evaluate_cgfs_def one_electron_def
      two_electron_def build_jobs_0 evaluate_jobs_def int_cast_def combine_nuclear_def
      mat_zero_def)

subsection \<open>Every slot of the array is scheduled\<close>

text \<open>Every index up to the key of the last quadruple is the key of a scheduled quadruple.\<close>

lemma tri_le_cancel:
  assumes "tri p + q \<le> tri m + m" "q \<le> p"
  shows "p \<le> m"
proof (rule ccontr)
  assume "\<not> p \<le> m"
  then have "tri m + m < tri p" by (intro tri_strict) simp
  then show False using assms by simp
qed

lemma of_nat_small:
  assumes "a < n" "n \<le> unat (sz :: size_t)"
  shows "(of_nat a :: size_t) < sz" "unat (of_nat a :: size_t) = a"
proof -
  have "unat sz < 2 ^ 64" using unsigned_less [of sz] by simp
  then have "a < 2 ^ LENGTH(64)" using assms by simp
  then show u: "unat (of_nat a :: size_t) = a" by (intro of_nat_inverse) simp_all
  show "(of_nat a :: size_t) < sz" using assms u by (simp add: word_less_nat_alt)
qed

lemma key_surjective:
  assumes "1 \<le> unat sz" "unat sz \<le> 92681"
    and x: "x \<le> tri (top_pair (unat sz)) + top_pair (unat sz)"
  shows "\<exists>q\<in>set (quadruples sz). scheduled q \<and> unat (key q) = x"
proof -
  let ?n = "unat sz"
  obtain p q where pq: "q \<le> p" "x = tri p + q" using tri_surj by blast
  have p: "p \<le> top_pair ?n" using x pq by (intro tri_le_cancel [of p q]) simp_all
  obtain a b where ab: "b \<le> a" "p = tri a + b" using tri_surj by blast
  obtain c d where cd: "d \<le> c" "q = tri c + d" using tri_surj by blast
  have a: "a \<le> ?n - 1"
    using p ab unfolding top_pair_def by (intro tri_le_cancel [of a b]) simp_all
  have c: "c \<le> ?n - 1"
    using p pq cd unfolding top_pair_def by (intro tri_le_cancel [of c d]) simp_all
  have lt: "a < ?n" "b < ?n" "c < ?n" "d < ?n" using a c ab cd assms(1) by simp_all
  let ?a = "of_nat a :: size_t" and ?b = "of_nat b :: size_t"
  let ?c = "of_nat c :: size_t" and ?d = "of_nat d :: size_t"
  note A = of_nat_small [OF lt(1) order_refl] and B = of_nat_small [OF lt(2) order_refl]
  note C = of_nat_small [OF lt(3) order_refl] and D = of_nat_small [OF lt(4) order_refl]
  have s: "unat ?a \<le> 92680" "unat ?b \<le> 92680" "unat ?c \<le> 92680" "unat ?d \<le> 92680"
    using lt assms(2) by (simp_all add: A B C D)
  have "unat (compound ?c ?d) = q" "unat (compound ?a ?b) = p"
    using unat_compound_small(1) [OF s(3,4)] unat_compound_small(1) [OF s(1,2)] ab cd
    by (simp_all add: A B C D)
  then have sch: "scheduled (?c, ?d, ?a, ?b)"
    using pq by (simp add: scheduled_def word_le_nat_alt)
  have "unat (teindex ?c ?d ?a ?b) = x"
    unfolding unat_teindex [OF s(3,4,1,2)]
    using ab cd pq by (simp add: A B C D max_absorb1 min_absorb2 max_absorb2 min_absorb1)
  then have k: "unat (key (?c, ?d, ?a, ?b)) = x" by (simp add: key_def)
  have "(?c, ?d, ?a, ?b) \<in> set (quadruples sz)"
    by (simp add: quadruples_iff A B C D)
  then show ?thesis using sch k by blast
qed

lemma all_keys_range:
  assumes "1 \<le> unat sz" "unat sz \<le> 92681"
  shows "all_keys sz = {x. x < tedouble_size sz}"
proof (intro set_eqI iffI)
  fix x assume "x \<in> all_keys sz"
  then obtain i j k l where q: "(i, j, k, l) \<in> set (quadruples sz)" "x = teindex i j k l"
    by (auto simp: all_keys_def key_def)
  then have lt: "i < sz" "j < sz" "k < sz" "l < sz" by (simp_all add: quadruples_iff)
  have "unat x < unat (tedouble_size sz)"
    using key_le_top [OF assms lt] unat_tedouble_size [OF assms] q(2) by simp
  then show "x \<in> {x. x < tedouble_size sz}" by (simp add: word_less_nat_alt)
next
  fix x assume "x \<in> {x. x < tedouble_size sz}"
  then have "unat x < unat (tedouble_size sz)" by (simp add: word_less_nat_alt)
  then have "unat x \<le> tri (top_pair (unat sz)) + top_pair (unat sz)"
    unfolding unat_tedouble_size [OF assms] by simp
  then obtain q where q: "q \<in> set (quadruples sz)" "unat (key q) = unat x"
    using key_surjective [OF assms] by blast
  from q(2) have "key q = x" by (simp only: word_unat_eq_iff)
  then show "x \<in> all_keys sz" using q(1) unfolding all_keys_def by blast
qed

lemma card_below: "card {x :: size_t. x < w} = unat w"
proof -
  have "{x :: size_t. x < w} = of_nat ` {..<unat w}"
  proof (intro set_eqI iffI)
    fix x :: size_t assume "x \<in> {x. x < w}"
    then have "unat x \<in> {..<unat w}" by (simp add: word_less_nat_alt)
    moreover have "x = of_nat (unat x)" by simp
    ultimately show "x \<in> of_nat ` {..<unat w}" by (rule rev_image_eqI)
  next
    fix x :: size_t assume "x \<in> of_nat ` {..<unat w}"
    then obtain a where a: "a < unat w" "x = of_nat a" by blast
    have "(of_nat a :: size_t) < w" using a(1) by (intro of_nat_small(1) [of a "unat w"]) simp_all
    then show "x \<in> {x. x < w}" using a(2) by blast
  qed
  moreover have "inj_on (of_nat :: nat \<Rightarrow> size_t) {..<unat w}"
  proof (rule inj_onI)
    fix a b assume ab: "a \<in> {..<unat w}" "b \<in> {..<unat w}"
      and eq: "(of_nat a :: size_t) = of_nat b"
    have "unat (of_nat a :: size_t) = a" using ab(1) by (intro of_nat_small(2) [of a "unat w" w]) simp_all
    moreover have "unat (of_nat b :: size_t) = b" using ab(2) by (intro of_nat_small(2) [of b "unat w" w]) simp_all
    ultimately show "a = b" using eq by metis
  qed
  ultimately have "card {x :: size_t. x < w} = card {..<unat w}" by (simp only: card_image)
  then show ?thesis by simp
qed

lemma job_count:
  assumes "1 \<le> unat sz" "unat sz \<le> 92681" "build_jobs sz = Inr (ted, jobs)"
  shows "length jobs = unat (tedouble_size sz)" and "ted = replicate (unat (tedouble_size sz)) 1"
proof -
  note inv = build_jobs_Inr(1) [OF assms(3)]
  have keys: "job_idx ` set jobs = {x. x < tedouble_size sz}"
    using build_jobs_Inr(2) [OF assms(3)] all_keys_range [OF assms(1,2)] by simp
  have "distinct (map job_idx jobs)" using inv by (simp add: jobs_inv_def)
  then have "card (set (map job_idx jobs)) = length (map job_idx jobs)" by (rule distinct_card)
  then show "length jobs = unat (tedouble_size sz)" using keys by (simp add: card_below)
  have len: "length ted = unat (tedouble_size sz)" using inv by (simp add: jobs_inv_def)
  have mark: "\<forall>x<unat (tedouble_size sz). ted ! x = - 1 \<or> ted ! x = 1"
    and neg: "\<forall>x<unat (tedouble_size sz). ted ! x < 0 \<longleftrightarrow> x \<notin> unat ` job_idx ` set jobs"
    using inv unfolding jobs_inv_def prod.case by blast+
  have "\<forall>x<unat (tedouble_size sz). ted ! x = 1"
  proof (intro allI impI)
    fix x assume x: "x < unat (tedouble_size sz)"
    have lt: "(of_nat x :: size_t) < tedouble_size sz"
      using x by (intro of_nat_small(1) [of x "unat (tedouble_size sz)"]) simp_all
    have u: "unat (of_nat x :: size_t) = x"
      using x by (intro of_nat_small(2) [of x "unat (tedouble_size sz)" "tedouble_size sz"]) simp_all
    from lt have "(of_nat x :: size_t) \<in> job_idx ` set jobs" unfolding keys by blast
    then have "unat (of_nat x :: size_t) \<in> unat ` job_idx ` set jobs" by (rule imageI)
    then have "x \<in> unat ` job_idx ` set jobs" unfolding u .
    then have "\<not> ted ! x < 0" using neg x by blast
    moreover have "ted ! x = - 1 \<or> ted ! x = 1" using mark x by blast
    ultimately show "ted ! x = 1" by auto
  qed
  then show "ted = replicate (unat (tedouble_size sz)) 1"
    using len by (simp add: list_eq_iff_nth_eq)
qed

section \<open>The matrices and the result vector\<close>

subsection \<open>Casts and positions\<close>

lemma int_cast_le: "nat (int_cast (of_nat n)) \<le> n"
proof -
  let ?w = "ucast (of_nat n :: size_t) :: uint"
  have s: "sint ?w = signed_take_bit 31 (uint ?w)" by (simp add: sint_uint)
  have "(0::int) \<le> uint ?w" by (rule uint_ge_0)
  moreover have "- (2 ^ 31) \<le> (0::int)" by simp
  ultimately have "- (2 ^ 31) \<le> uint ?w" by (rule order_trans [rotated])
  then have "signed_take_bit 31 (uint ?w) \<le> uint ?w"
    by (rule signed_take_bit_int_less_eq_self_iff [THEN iffD2])
  then have "sint ?w \<le> uint ?w" by (simp only: s)
  then have "nat (sint ?w) \<le> nat (uint ?w)" by (rule nat_mono)
  also have "nat (uint ?w) = unat ?w" by simp
  also have "unat ?w \<le> unat (of_nat n :: size_t)"
    unfolding unsigned_ucast_eq by (rule take_bit_nat_less_eq_self)
  also have "unat (of_nat n :: size_t) \<le> n"
    unfolding unsigned_of_nat of_nat_id by (rule take_bit_nat_less_eq_self)
  finally show ?thesis by (simp only: int_cast_def)
qed

lemma int_cast_small:
  assumes "n < 2 ^ 31"
  shows "int_cast (of_nat n) = int n"
proof -
  have "n < 2 ^ 64" using assms by (rule less_le_trans) simp
  then have t: "take_bit 64 n = n" by (simp add: take_bit_nat_eq_self_iff)
  have u: "(ucast (of_nat n :: size_t) :: uint) = of_nat n"
    by (simp add: unsigned_of_nat t)
  have "signed_take_bit 31 (int n) = int n"
    using assms by (intro signed_take_bit_int_eq_self) simp_all
  then show ?thesis by (simp add: int_cast_def u signed_of_nat)
qed

lemma mat_pos_less:
  assumes "i < n" "j < n"
  shows "i + j * n < n * (n::nat)"
proof -
  have "Suc j \<le> n" using assms(2) by simp
  then have "Suc j * n \<le> n * n" by (rule mult_le_mono1)
  moreover have "i + j * n < Suc j * n" using assms(1) by simp
  ultimately show ?thesis by (rule less_le_trans [rotated])
qed

lemma mat_pos_inj:
  assumes "i < n" "i' < n" "i + j * n = i' + j' * n"
  shows "i = i' \<and> j = (j'::nat)"
proof -
  from assms(3) have "(i + j * n) mod n = (i' + j' * n) mod n" by (rule arg_cong)
  then have i: "i = i'" using assms(1,2) by simp
  from assms(3) have "(i + j * n) div n = (i' + j' * n) div n" by (rule arg_cong)
  then have "j = j'" using assms(1,2) by simp
  with i show ?thesis by simp
qed

lemma mat_pos_eq_iff:
  assumes "i < n" "i' < n"
  shows "i + j * n = i' + j' * n \<longleftrightarrow> i = i' \<and> j = (j'::nat)"
proof
  assume "i + j * n = i' + j' * n"
  then show "i = i' \<and> j = j'" by (rule mat_pos_inj [OF assms])
next
  assume "i = i' \<and> j = j'"
  then show "i + j * n = i' + j' * n" by simp
qed

lemma symmetric_zero: "symmetric n (mat_zero n)"
  by (simp add: symmetric_def mat_zero_def mat_get_def mat_pos_less)

lemma mat_get_set:
  assumes "length m = n * n" "i < n" "j < n" "a < n" "b < n"
  shows "mat_get n i j (mat_set n a b v m) = (if i = a \<and> j = b then v else mat_get n i j m)"
  using assms mat_pos_less [of a n b]
  by (simp add: mat_get_def mat_set_def nth_list_update mat_pos_eq_iff) 

lemma length_mat_set: "length (mat_set n a b v m) = length m"
  by (simp add: mat_set_def)

lemma symmetric_set:
  assumes "symmetric n m" "a < n" "b < n"
  shows "symmetric n (mat_set n a b v (mat_set n b a v m))"
proof -
  have len: "length m = n * n" using assms(1) by (simp add: symmetric_def)
  have sym: "\<And>i j. i < n \<Longrightarrow> j < n \<Longrightarrow> mat_get n i j m = mat_get n j i m"
    using assms(1) by (simp add: symmetric_def)
  have len1: "length (mat_set n b a v m) = n * n" by (simp add: length_mat_set len)
  have "mat_get n i j (mat_set n a b v (mat_set n b a v m))
          = mat_get n j i (mat_set n a b v (mat_set n b a v m))"
    if ij: "i < n" "j < n" for i j
  proof -
    have L: "mat_get n i j (mat_set n a b v (mat_set n b a v m))
        = (if i = a \<and> j = b then v else if i = b \<and> j = a then v else mat_get n i j m)"
      by (simp only: mat_get_set [OF len1 ij assms(2,3)] mat_get_set [OF len ij assms(3,2)])
    have R: "mat_get n j i (mat_set n a b v (mat_set n b a v m))
        = (if j = a \<and> i = b then v else if j = b \<and> i = a then v else mat_get n j i m)"
      by (simp only: mat_get_set [OF len1 ij(2,1) assms(2,3)]
            mat_get_set [OF len ij(2,1) assms(3,2)])
    show ?thesis unfolding L R sym [OF ij] by (cases "i = a"; cases "j = b"; cases "i = b"; cases "j = a"; simp)
  qed
  then show ?thesis by (simp add: symmetric_def length_mat_set len)
qed

subsection \<open>The first pair of loops keeps the matrices symmetric\<close>

lemma one_inv_init:
  "one_inv n nc (mat_zero n, mat_zero n, replicate nc (mat_zero n))"
  by (simp add: one_inv_def symmetric_zero)

lemma charge_loop_inv:
  assumes "a < n" "b < n" "length Vn = nc" "\<forall>k<nc. symmetric n (Vn ! k)" "\<forall>k\<in>set ks. k < nc"
  shows "length (fold (\<lambda>k Vn. let v = f k in Vn[k := mat_set n a b v (mat_set n b a v (Vn ! k))])
                   ks Vn) = nc \<and>
         (\<forall>k<nc. symmetric n
            (fold (\<lambda>k Vn. let v = f k in Vn[k := mat_set n a b v (mat_set n b a v (Vn ! k))])
               ks Vn ! k))"
  using assms(3-5)
proof (induction ks arbitrary: Vn)
  case Nil
  then show ?case by simp
next
  case (Cons k ks)
  let ?Vn = "Vn[k := mat_set n a b (f k) (mat_set n b a (f k) (Vn ! k))]"
  have k: "k < nc" using Cons.prems(3) by simp
  have 1: "length ?Vn = nc" using Cons.prems(1) by simp
  have 2: "\<forall>x<nc. symmetric n (?Vn ! x)"
  proof (intro allI impI)
    fix x assume x: "x < nc"
    show "symmetric n (?Vn ! x)"
    proof (cases "x = k")
      case True
      have "symmetric n (mat_set n a b (f k) (mat_set n b a (f k) (Vn ! k)))"
        using Cons.prems(2) k assms(1,2) by (intro symmetric_set) simp_all
      then show ?thesis using True k Cons.prems(1) by simp
    next
      case False
      then show ?thesis using Cons.prems(2) x by simp
    qed
  qed
  have 3: "\<forall>k\<in>set ks. k < nc" using Cons.prems(3) by simp
  show ?case using Cons.IH [OF 1 2 3] by (simp add: Let_def)
qed

lemma pair_step_inv:
  assumes "one_inv (length cgfs) (length charges) st" "i < length cgfs" "j < length cgfs"
  shows "one_inv (length cgfs) (length charges)
           (pair_step ovl kin nuc cgfs charges px py pz i j st)"
proof -
  obtain S T Vn where st: "st = (S, T, Vn)" by (cases st)
  let ?n = "length cgfs" and ?nc = "length charges"
  have inv: "symmetric ?n S" "symmetric ?n T" "length Vn = ?nc" "\<forall>k<?nc. symmetric ?n (Vn ! k)"
    using assms(1) by (simp_all add: one_inv_def st)
  have ks: "\<forall>k\<in>set [0..<?nc]. k < ?nc" by simp
  note c = charge_loop_inv [OF assms(2,3) inv(3,4) ks,
      of "\<lambda>k. nuc (cgfs ! i) (cgfs ! j) (px ! k, py ! k, pz ! k) (charges ! k)"]
  show ?thesis
    unfolding st pair_step_def one_inv_def prod.case Let_def
    using symmetric_set [OF inv(1) assms(2,3)] symmetric_set [OF inv(2) assms(2,3)] c
    by (simp add: Let_def)
qed

lemma fold_inv:
  assumes "P s" "\<And>x s. x \<in> set xs \<Longrightarrow> P s \<Longrightarrow> P (f x s)"
  shows "P (fold f xs s)"
  using assms by (induction xs arbitrary: s) simp_all

lemma one_electron_inv:
  "one_inv (length cgfs) (length charges)
     (one_electron ovl kin nuc cgfs charges px py pz)"
proof -
  let ?n = "length cgfs"
  have row: "one_inv ?n (length charges)
      (fold (pair_step ovl kin nuc cgfs charges px py pz i) [i..<?n] s)"
    if "i < ?n" "one_inv ?n (length charges) s" for i s
    using that by (intro fold_inv [where P = "one_inv ?n (length charges)"] pair_step_inv) simp_all
  have "one_inv ?n (length charges)
      (fold (\<lambda>i. fold (pair_step ovl kin nuc cgfs charges px py pz i) [i..<?n])
         [0..<nat (int_cast (of_nat ?n))]
         (mat_zero ?n, mat_zero ?n, replicate (length charges) (mat_zero ?n)))"
  proof (rule fold_inv [where P = "one_inv ?n (length charges)"])
    show "one_inv ?n (length charges)
        (mat_zero ?n, mat_zero ?n, replicate (length charges) (mat_zero ?n))"
      by (rule one_inv_init)
  next
    fix i s assume i: "i \<in> set [0..<nat (int_cast (of_nat ?n))]"
      and s: "one_inv ?n (length charges) s"
    have "i < ?n" using i int_cast_le [of ?n] by simp
    then show "one_inv ?n (length charges)
        (fold (pair_step ovl kin nuc cgfs charges px py pz i) [i..<?n] s)"
      using s by (rule row)
  qed
  then show ?thesis by (simp add: one_electron_def Let_def)
qed

subsection \<open>The sum over the charges\<close>

lemma fold_product:
  "fold (\<lambda>x. fold (f x) ys) xs = fold (\<lambda>(x, y). f x y) (List.product xs ys)"
  by (induction xs) (simp_all add: fold_map comp_def)

lemma fold_accumulate:
  "fold (\<lambda>k V. V[p := V ! p + g k]) ks V = V[p := fold (\<lambda>k acc. acc + g k) ks (V ! p)]"
proof (cases "p < length V")
  case True
  then show ?thesis by (induction ks arbitrary: V) simp_all
next
  case False
  then have "fold (\<lambda>k V. V[p := V ! p + g k]) ks V = V"
    by (induction ks arbitrary: V) (simp_all add: list_update_beyond)
  then show ?thesis using False by (simp add: list_update_beyond)
qed

lemma fold_cells_all:
  assumes "distinct (map pos xs)"
  shows "length (fold (\<lambda>x V. V[pos x := h x (V ! pos x)]) xs V) = length V \<and>
    (\<forall>q. q \<notin> pos ` set xs \<longrightarrow> fold (\<lambda>x V. V[pos x := h x (V ! pos x)]) xs V ! q = V ! q) \<and>
    (\<forall>x\<in>set xs. pos x < length V \<longrightarrow>
           fold (\<lambda>x V. V[pos x := h x (V ! pos x)]) xs V ! pos x = h x (V ! pos x))"
  using assms
proof (induction xs arbitrary: V)
  case Nil
  show ?case by simp
next
  case (Cons y ys)
  let ?V = "V[pos y := h y (V ! pos y)]"
  let ?R = "fold (\<lambda>x V. V[pos x := h x (V ! pos x)]) ys ?V"
  have d: "distinct (map pos ys)" and ny: "pos y \<notin> pos ` set ys" using Cons.prems by auto
  note IH = Cons.IH [OF d, of ?V]
  have 1: "length ?R = length V" using IH by simp
  have 2: "?R ! q = V ! q" if "q \<notin> pos ` set (y # ys)" for q
  proof -
    have "q \<notin> pos ` set ys" "q \<noteq> pos y" using that by auto
    then show ?thesis using IH by simp
  qed
  have 3: "?R ! pos x = h x (V ! pos x)" if x: "x \<in> set (y # ys)" "pos x < length V" for x
  proof (cases "pos x = pos y")
    case True
    have "x \<notin> set ys"
    proof
      assume "x \<in> set ys"
      then have "pos x \<in> pos ` set ys" by (rule imageI)
      then show False using True ny by simp
    qed
    then have xy: "x = y" using x(1) by simp
    have "?R ! pos y = ?V ! pos y" using IH ny by blast
    then show ?thesis using x(2) xy by simp
  next
    case False
    then have "x \<in> set ys" using x(1) by auto
    moreover have "pos x < length ?V" using x(2) by simp
    ultimately have "?R ! pos x = h x (?V ! pos x)" using IH by blast
    then show ?thesis using False by simp
  qed
  show ?case using 1 2 3 by simp
qed

lemma combine_nuclear_flat:
  "combine_nuclear n nc Vn =
     fold (\<lambda>x V. V[(\<lambda>(i, j). i + j * n) x := charge_sum Vn nc ((\<lambda>(i, j). i + j * n) x)
                                           (V ! (\<lambda>(i, j). i + j * n) x)])
       (List.product [0..<n] [0..<n]) (mat_zero n)"
proof -
  have inner: "fold (\<lambda>k V. mat_set n i j (mat_get n i j V + mat_get n i j (Vn ! k)) V) [0..<nc]
      = (\<lambda>V. V[i + j * n := charge_sum Vn nc (i + j * n) (V ! (i + j * n))])" for i j
    by (intro ext) (simp add: mat_set_def mat_get_def charge_sum_def fold_accumulate)
  have "combine_nuclear n nc Vn =
      fold (\<lambda>i. fold (\<lambda>j V. V[i + j * n := charge_sum Vn nc (i + j * n) (V ! (i + j * n))])
        [0..<n]) [0..<n] (mat_zero n)"
    by (simp only: combine_nuclear_def inner)
  also have "\<dots> = fold (\<lambda>(i, j) V. V[i + j * n := charge_sum Vn nc (i + j * n) (V ! (i + j * n))])
       (List.product [0..<n] [0..<n]) (mat_zero n)"
    by (simp only: fold_product
          [of "\<lambda>i j V. V[i + j * n := charge_sum Vn nc (i + j * n) (V ! (i + j * n))]"])
  also have "(\<lambda>(i, j) V. V[i + j * n := charge_sum Vn nc (i + j * n) (V ! (i + j * n))])
      = (\<lambda>x V. V[(\<lambda>(i, j). i + j * n) x := charge_sum Vn nc ((\<lambda>(i, j). i + j * n) x)
                                           (V ! (\<lambda>(i, j). i + j * n) x)])"
    by (simp add: fun_eq_iff)
  finally show ?thesis .
qed

lemma distinct_positions: "distinct (map (\<lambda>(i, j). i + j * n) (List.product [0..<n] [0..<n]))"
proof -
  have "inj_on (\<lambda>(i, j). i + j * n) (set (List.product [0..<n] [0..<n]))"
    by (rule inj_onI) (auto dest: mat_pos_inj)
  then show ?thesis by (simp add: distinct_map distinct_product)
qed

lemma combine_nuclear_length: "length (combine_nuclear n nc Vn) = n * n"
  unfolding combine_nuclear_flat
  using fold_cells_all [OF distinct_positions, of n "\<lambda>x. charge_sum Vn nc ((\<lambda>(i, j). i + j * n) x)"
      "mat_zero n"]
  by (simp add: mat_zero_def)

lemma combine_nuclear_entry:
  assumes "i < n" "j < n"
  shows "mat_get n i j (combine_nuclear n nc Vn) = charge_sum Vn nc (i + j * n) 0"
proof -
  have m: "(i, j) \<in> set (List.product [0..<n] [0..<n])" using assms by simp
  have l: "(\<lambda>(i, j). i + j * n) (i, j) < length (mat_zero n)"
    using assms by (simp add: mat_zero_def mat_pos_less)
  show ?thesis
    unfolding combine_nuclear_flat mat_get_def
    using fold_cells_all [OF distinct_positions, of n
        "\<lambda>x. charge_sum Vn nc ((\<lambda>(i, j). i + j * n) x)" "mat_zero n"] m l
    by (auto simp: mat_zero_def)
qed

lemma charge_sum_cong:
  assumes "\<forall>k<nc. Vn ! k ! p = Vn ! k ! q"
  shows "charge_sum Vn nc p v = charge_sum Vn nc q v"
  unfolding charge_sum_def using assms by (intro fold_cong) auto

lemma combine_nuclear_symmetric:
  assumes "\<forall>k<nc. symmetric n (Vn ! k)"
  shows "symmetric n (combine_nuclear n nc Vn)"
proof -
  have "mat_get n i j (combine_nuclear n nc Vn) = mat_get n j i (combine_nuclear n nc Vn)"
    if ij: "i < n" "j < n" for i j
  proof -
    have "\<forall>k<nc. Vn ! k ! (i + j * n) = Vn ! k ! (j + i * n)"
      using assms ij by (simp add: symmetric_def mat_get_def)
    then show ?thesis
      by (simp only: combine_nuclear_entry [OF ij] combine_nuclear_entry [OF ij(2,1)]
            charge_sum_cong [of nc Vn "i + j * n" "j + i * n"])
  qed
  then show ?thesis by (simp add: symmetric_def combine_nuclear_length)
qed

subsection \<open>Length and layout of the result\<close>

lemma evaluate_jobs_length: "length (evaluate_jobs rep cgfs jobs ted) = length ted"
proof -
  have "length (fold (\<lambda>s ted. case jobs ! s of (idx, i, j, k, l) \<Rightarrow>
            ted[unat idx := rep (cgfs ! unat i) (cgfs ! unat j) (cgfs ! unat k) (cgfs ! unat l)])
          xs ted) = length ted" for xs
    by (induction xs arbitrary: ted) (simp_all add: case_prod_unfold)
  then show ?thesis by (simp add: evaluate_jobs_def)
qed

lemma symmetric_length: "symmetric n m \<Longrightarrow> length m = n * n"
  unfolding symmetric_def by (rule conjunct1)

lemma symmetric_entry:
  "symmetric n m \<Longrightarrow> i < n \<Longrightarrow> j < n \<Longrightarrow> m ! (i + j * n) = m ! (j + i * n)"
  unfolding symmetric_def mat_get_def by blast






text \<open>
  Claim C5.  In every vector the call returns, the entries \<open>(i, j)\<close> and \<open>(j, i)\<close> of
  \<open>S\<close>, of \<open>T\<close> and of \<open>V\<close> are equal, for all \<open>i, j\<close> below the number \<open>N\<close> of basis
  functions; entry \<open>(i, j)\<close> of the three matrices is at the positions \<open>i + j * N\<close>,
  \<open>N * N + (i + j * N)\<close> and \<open>2 * N * N + (i + j * N)\<close> of the vector.
\<close>

theorem integral_matrices_symmetric:
  assumes "evaluate_cgfs ovl kin nuc rep cgfs charges px py pz = Inr res"
    and "i < length cgfs" "j < length cgfs"
  shows "res ! (i + j * length cgfs) = res ! (j + i * length cgfs) \<and>
         res ! (length cgfs * length cgfs + (i + j * length cgfs))
           = res ! (length cgfs * length cgfs + (j + i * length cgfs)) \<and>
         res ! (2 * (length cgfs * length cgfs) + (i + j * length cgfs))
           = res ! (2 * (length cgfs * length cgfs) + (j + i * length cgfs))"
proof -
  let ?n = "length cgfs"
  obtain S T Vn where o: "one_electron ovl kin nuc cgfs charges px py pz = (S, T, Vn)"
    by (cases "one_electron ovl kin nuc cgfs charges px py pz")
  obtain ted where t: "two_electron rep cgfs = Inr ted"
    using assms(1) by (cases "two_electron rep cgfs") (simp_all add: evaluate_cgfs_def o)
  have res: "res = S @ T @ combine_nuclear ?n (length charges) Vn @ ted"
    using assms(1) by (simp add: evaluate_cgfs_def o t)
  let ?V = "combine_nuclear ?n (length charges) Vn"
  have inv: "one_inv ?n (length charges) (S, T, Vn)"
    using one_electron_inv [of cgfs charges ovl kin nuc px py pz] by (simp add: o)
  then have sS: "symmetric ?n S" and sT: "symmetric ?n T"
    and sVn: "\<forall>k<length charges. symmetric ?n (Vn ! k)"
    by (simp_all add: one_inv_def)
  have sV: "symmetric ?n ?V" using sVn by (rule combine_nuclear_symmetric)
  have p: "i + j * ?n < ?n * ?n" "j + i * ?n < ?n * ?n"
    using assms(2,3) by (simp_all add: mat_pos_less)
  have l: "length S = ?n * ?n" "length T = ?n * ?n" "length ?V = ?n * ?n"
    using sS sT sV by (auto intro: symmetric_length)
  have S: "res ! (i + j * ?n) = S ! (i + j * ?n)" "res ! (j + i * ?n) = S ! (j + i * ?n)"
    using p l by (simp_all add: res nth_append)
  have T: "res ! (?n * ?n + (i + j * ?n)) = T ! (i + j * ?n)"
          "res ! (?n * ?n + (j + i * ?n)) = T ! (j + i * ?n)"
    using p l by (simp_all add: res nth_append)
  have V: "res ! (2 * (?n * ?n) + (i + j * ?n)) = ?V ! (i + j * ?n)"
          "res ! (2 * (?n * ?n) + (j + i * ?n)) = ?V ! (j + i * ?n)"
    using p l by (simp_all add: res nth_append)
  have "S ! (i + j * ?n) = S ! (j + i * ?n)" "T ! (i + j * ?n) = T ! (j + i * ?n)"
       "?V ! (i + j * ?n) = ?V ! (j + i * ?n)"
    by (rule symmetric_entry [OF sS assms(2,3)] symmetric_entry [OF sT assms(2,3)]
          symmetric_entry [OF sV assms(2,3)])+
  then show ?thesis unfolding S T V by blast
qed

theorem integral_matrices_symmetric_witness:
  "evaluate_cgfs (\<lambda>a b. a + b) (\<lambda>a b. a * b) (\<lambda>a b p c. a * b + fst p)
     (\<lambda>a b c d. a + b + c + d) [1, 2] [1, 1] [10, 20] [0, 0] [0, 0]
     = Inr [2, 3, 3, 4, 1, 2, 2, 4, 32, 34, 34, 38, 4, 5, 6, 6, 7, 8] \<and>
   (0::nat) < length [1, 2 :: real] \<and> (1::nat) < length [1, 2 :: real] \<and>
   [2, 3, 3, 4, 1, 2, 2, 4, 32, 34, 34, 38, 4, 5, 6, 6, 7, 8 :: real] ! (0 + 1 * 2) =
   [2, 3, 3, 4, 1, 2, 2, 4, 32, 34, 34, 38, 4, 5, 6, 6, 7, 8 :: real] ! (1 + 0 * 2)"
proof -
  have e: "evaluate_cgfs (\<lambda>a b. a + b) (\<lambda>a b. a * b) (\<lambda>a b p c. a * b + fst p)
     (\<lambda>a b c d. a + b + c + d) [1, 2] [1, 1] [10, 20] [0, 0] [0, 0]
     = Inr [2, 3, 3, 4, 1, 2, 2, 4, 32, 34, 34, 38, 4, 5, 6, 6, 7, 8]"
    by code_simp
  have h: "(0::nat) < length [1, 2 :: real]" "(1::nat) < length [1, 2 :: real]" by simp_all
  show ?thesis using e integral_matrices_symmetric [OF e h] h by simp
qed

section \<open>The evaluation of the jobs\<close>

lemma evaluate_jobs_skipped:
  assumes "int_cast (of_nat (length jobs)) \<le> 0"
  shows "evaluate_jobs rep cgfs jobs ted = ted"
  using assms by (simp add: evaluate_jobs_def)

lemma unat_tedouble_size_362: "unat (tedouble_size 362) = 2158474956"
  by (simp add: tedouble_size_def teindex_def)

lemma int_cast_2158474956: "int_cast (of_nat 2158474956) = - 2136492340"
  by (simp add: int_cast_def)

lemma job_count_small:
  assumes "1 \<le> unat sz" "unat sz \<le> 361"
  shows "unat (tedouble_size sz) < 2 ^ 31"
proof -
  have le: "unat sz \<le> 92681" using assms(2) by simp
  have "unat sz - 1 \<le> 360" using assms(2) by simp
  then have "tri (unat sz - 1) \<le> tri 360" by (rule tri_mono)
  moreover have "tri 360 = 64980" by (simp add: tri_def)
  ultimately have t: "top_pair (unat sz) \<le> 65340"
    using assms(2) by (simp add: top_pair_def)
  then have "tri (top_pair (unat sz)) \<le> tri 65340" by (rule tri_mono)
  moreover have "tri 65340 = 2134690470" by (simp add: tri_def)
  ultimately have "tri (top_pair (unat sz)) + top_pair (unat sz) + 1 \<le> 2134755811"
    using t by simp
  then show ?thesis by (simp add: unat_tedouble_size [OF assms(1) le])
qed

lemma evaluate_jobs_slots:
  assumes inv: "jobs_inv n Q (ted, jobs)" and small: "length jobs < 2 ^ 31"
    and s: "s < length jobs"
  shows "evaluate_jobs rep cgfs jobs ted ! unat (job_idx (jobs ! s)) =
     (case jobs ! s of (idx, i, j, k, l) \<Rightarrow>
        rep (cgfs ! unat i) (cgfs ! unat j) (cgfs ! unat k) (cgfs ! unat l))"
proof -
  let ?pos = "\<lambda>s. unat (job_idx (jobs ! s))"
  let ?h = "\<lambda>s (v::real). case jobs ! s of (idx, i, j, k, l) \<Rightarrow>
        rep (cgfs ! unat i) (cgfs ! unat j) (cgfs ! unat k) (cgfs ! unat l)"
  have b: "nat (int_cast (of_nat (length jobs))) = length jobs"
    using int_cast_small [OF small] by simp
  have f: "(\<lambda>s ted. case jobs ! s of (idx, i, j, k, l) \<Rightarrow>
               ted[unat idx :=
                 rep (cgfs ! unat i) (cgfs ! unat j) (cgfs ! unat k) (cgfs ! unat l)])
      = (\<lambda>s V. V[?pos s := ?h s (V ! ?pos s)])"
    by (simp add: fun_eq_iff case_prod_unfold job_idx_def)
  have e: "evaluate_jobs rep cgfs jobs ted
      = fold (\<lambda>s V. V[?pos s := ?h s (V ! ?pos s)]) [0..<length jobs] ted"
    unfolding evaluate_jobs_def b f by (rule refl)
  have "map ?pos [0..<length jobs] = map (\<lambda>jb. unat (job_idx jb)) jobs"
    by (rule nth_equalityI) simp_all
  moreover have "distinct (map (\<lambda>jb. unat (job_idx jb)) jobs)"
  proof -
    have "distinct (map job_idx jobs)" using inv by (simp add: jobs_inv_def)
    then have "distinct (map unat (map job_idx jobs))"
      by (simp only: distinct_map) (simp add: inj_on_def word_unat_eq_iff)
    then show ?thesis by (simp add: comp_def)
  qed
  ultimately have d: "distinct (map ?pos [0..<length jobs])" by simp
  have "jobs ! s \<in> set jobs" using s by simp
  then have "unat (job_idx (jobs ! s)) < n" using inv unfolding jobs_inv_def prod.case by blast
  moreover have "length ted = n" using inv by (simp add: jobs_inv_def)
  ultimately have l: "?pos s < length ted" by simp
  have m: "s \<in> set [0..<length jobs]" using s by simp
  show ?thesis
    unfolding e using fold_cells_all [OF d, of ?h ted] m l by blast
qed

text \<open>
  For 1 to 361 basis functions every slot of the two-electron array holds the
  repulsion integral of a quadruple with that key.
\<close>

lemma two_electron_slots:
  assumes "1 \<le> length cgfs" "length cgfs \<le> 361"
  shows "\<exists>ted. two_electron rep cgfs = Inr ted \<and>
     length ted = unat (tedouble_size (of_nat (length cgfs))) \<and>
     (\<forall>x<length ted. \<exists>i j k l. (i, j, k, l) \<in> set (quadruples (of_nat (length cgfs))) \<and>
        unat (teindex i j k l) = x \<and>
        ted ! x = rep (cgfs ! unat i) (cgfs ! unat j) (cgfs ! unat k) (cgfs ! unat l))"
proof -
  let ?sz = "of_nat (length cgfs) :: size_t"
  have "length cgfs < 2 ^ LENGTH(64)" using assms(2) by simp
  then have u: "unat ?sz = length cgfs" by (intro of_nat_inverse) simp_all
  have h: "1 \<le> unat ?sz" "unat ?sz \<le> 361" "unat ?sz \<le> 92681" using assms u by simp_all
  obtain ted jobs where b: "build_jobs ?sz = Inr (ted, jobs)"
    using build_jobs_total [OF h(3)] by blast
  note inv = build_jobs_Inr(1) [OF b]
  have n: "length jobs = unat (tedouble_size ?sz)" using job_count(1) [OF h(1,3) b] .
  have small: "length jobs < 2 ^ 31" using job_count_small [OF h(1,2)] n by simp
  have len: "length ted = unat (tedouble_size ?sz)" using build_jobs_length [OF b] .
  let ?res = "evaluate_jobs rep cgfs jobs ted"
  have t: "two_electron rep cgfs = Inr ?res" by (simp add: two_electron_def b)
  have lr: "length ?res = unat (tedouble_size ?sz)" by (simp add: evaluate_jobs_length len)
  have keys: "job_idx ` set jobs = {x. x < tedouble_size ?sz}"
    using build_jobs_Inr(2) [OF b] all_keys_range [OF h(1,3)] by simp
  have slot: "\<exists>i j k l. (i, j, k, l) \<in> set (quadruples ?sz) \<and> unat (teindex i j k l) = x \<and>
        ?res ! x = rep (cgfs ! unat i) (cgfs ! unat j) (cgfs ! unat k) (cgfs ! unat l)"
    if x: "x < unat (tedouble_size ?sz)" for x
  proof -
    have lt: "(of_nat x :: size_t) < tedouble_size ?sz"
      using x by (intro of_nat_small(1) [of x "unat (tedouble_size ?sz)"]) simp_all
    have ux: "unat (of_nat x :: size_t) = x"
      using x by (intro of_nat_small(2) [of x "unat (tedouble_size ?sz)" "tedouble_size ?sz"])
        simp_all
    from lt have "(of_nat x :: size_t) \<in> job_idx ` set jobs" unfolding keys by blast
    then obtain jb where jb: "jb \<in> set jobs" "job_idx jb = of_nat x" by auto
    then obtain s where s: "s < length jobs" "jobs ! s = jb" by (auto simp: in_set_conv_nth)
    obtain idx i j k l where q: "jb = (idx, i, j, k, l)" by (cases jb)
    have "job_idx jb = key (snd jb)" "snd jb \<in> set (quadruples ?sz)"
      using inv jb(1) unfolding jobs_inv_def prod.case by blast+
    then have k: "teindex i j k l = of_nat x" and m: "(i, j, k, l) \<in> set (quadruples ?sz)"
      using jb(2) by (simp_all add: q key_def)
    have "?res ! unat (job_idx (jobs ! s)) =
      (case jobs ! s of (idx, i, j, k, l) \<Rightarrow>
        rep (cgfs ! unat i) (cgfs ! unat j) (cgfs ! unat k) (cgfs ! unat l))"
      using inv small s(1) by (rule evaluate_jobs_slots)
    moreover have "unat (job_idx (jobs ! s)) = x" by (simp only: s(2) jb(2) ux)
    moreover have "(case jobs ! s of (idx, i, j, k, l) \<Rightarrow>
        rep (cgfs ! unat i) (cgfs ! unat j) (cgfs ! unat k) (cgfs ! unat l))
      = rep (cgfs ! unat i) (cgfs ! unat j) (cgfs ! unat k) (cgfs ! unat l)"
      by (simp add: s(2) q)
    ultimately have "?res ! x =
        rep (cgfs ! unat i) (cgfs ! unat j) (cgfs ! unat k) (cgfs ! unat l)"
      by simp
    moreover have "unat (teindex i j k l) = x" by (simp add: k ux)
    ultimately show ?thesis using m by blast
  qed
  show ?thesis using t lr slot by (metis (no_types, lifting))
qed

text \<open>
  Claim C9 describes what the code is written to do, and the code does it for up to
  361 basis functions.  From 362 on the number of jobs reaches \<open>2^31\<close> and the bound
  \<open>(int)jobs.size()\<close> of the evaluation loop is no longer the number of jobs.  For 362
  functions there are 2158474956 jobs, the cast gives -2136492340, the loop body never
  runs, and every slot of the two-electron array is returned with the marker \<open>1.0\<close>
  of the job construction instead of an integral.
\<close>

theorem jobs_not_evaluated_at_362:
  "two_electron rep (replicate 362 c) = Inr (replicate 2158474956 1)"
proof -
  have h: "1 \<le> unat (362 :: size_t)" "unat (362 :: size_t) \<le> 92681" by simp_all
  obtain ted jobs where b: "build_jobs 362 = Inr (ted, jobs)"
    using build_jobs_total [OF h(2)] by blast
  have n: "length jobs = 2158474956" and t: "ted = replicate 2158474956 1"
    using job_count [OF h b] by (simp_all only: unat_tedouble_size_362)
  have "int_cast (of_nat (length jobs)) \<le> 0"
    by (simp only: n int_cast_2158474956)
  then have "evaluate_jobs rep (replicate 362 c) jobs ted = ted"
    by (rule evaluate_jobs_skipped)
  then show ?thesis by (simp add: two_electron_def b t)
qed

section \<open>The kernels\<close>

subsection \<open>The binomial helper\<close>



subsection \<open>The kinetic integral of two primitives\<close>



lemma momentum_coefficient_zero:
  fixes l :: uint
  shows "l = 0 \<or> l = 1 \<Longrightarrow> real (unat (l * (l - 1))) = 0"
  by auto



text \<open>Two values of the one-dimensional overlap, computed from the definitions.\<close>

lemma overlap_1D_00: "overlap_1D 0 0 x1 x2 g = 1"
  by (simp add: overlap_1D_def binomial_prefactor_def binomial_def factorial_d_def
      word_sle_eq)

lemma overlap_1D_02: "overlap_1D 0 2 0 0 g = 1 / (2 * g)"
  by (simp add: overlap_1D_def binomial_prefactor_def binomial_def factorial_d_def
      word_sle_eq word_sless_alt upt_rec [of 0] numeral_2_eq_2 numeral_3_eq_3)

subsection \<open>The derivatives of contracted functions\<close>

text \<open>A contracted function whose centre is the nucleus is attached to it.\<close>

lemma attached_coinciding: "cgf_r c = nucleus \<Longrightarrow> attached c nucleus"
  by (cases nucleus) (simp add: attached_def squaredNorm_def vec_minus_def vec_at_def)

text \<open>
  Claim C8.  \<open>overlap_deriv\<close> and \<open>kinetic_deriv\<close> of two contracted functions return
  0 when both or neither of them is attached to the nucleus of the derivative, and
  \<open>repulsion_deriv\<close> of four returns 0 when none of them is (and also when all four
  are); a function is attached when its centre is within a squared distance of 0.0001
  of the nucleus, in particular when it coincides with it.
\<close>

theorem derivatives_vanish:
  "(attached cgf1 nucleus = attached cgf2 nucleus \<longrightarrow>
      overlap_deriv_cgf cgf1 cgf2 nucleus coord = 0 \<and>
      kinetic_deriv_cgf nrm cgf1 cgf2 nucleus coord = 0) \<and>
   (\<not> attached cgf1 nucleus \<and> \<not> attached cgf2 nucleus \<and> \<not> attached cgf3 nucleus \<and>
    \<not> attached cgf4 nucleus \<longrightarrow>
      repulsion_deriv_cgf nrm repulsion_gto cgf1 cgf2 cgf3 cgf4 nucleus coord = 0) \<and>
   (attached cgf1 nucleus \<and> attached cgf2 nucleus \<and> attached cgf3 nucleus \<and>
    attached cgf4 nucleus \<longrightarrow>
      repulsion_deriv_cgf nrm repulsion_gto cgf1 cgf2 cgf3 cgf4 nucleus coord = 0) \<and>
   (cgf_r cgf1 = nucleus \<longrightarrow> attached cgf1 nucleus)"
proof (intro conjI impI)
  assume "attached cgf1 nucleus = attached cgf2 nucleus"
  then show "overlap_deriv_cgf cgf1 cgf2 nucleus coord = 0"
    and "kinetic_deriv_cgf nrm cgf1 cgf2 nucleus coord = 0"
    by (simp_all add: overlap_deriv_cgf_def kinetic_deriv_cgf_def)
next
  assume "\<not> attached cgf1 nucleus \<and> \<not> attached cgf2 nucleus \<and> \<not> attached cgf3 nucleus \<and>
    \<not> attached cgf4 nucleus"
  then show "repulsion_deriv_cgf nrm repulsion_gto cgf1 cgf2 cgf3 cgf4 nucleus coord = 0"
    by (simp add: repulsion_deriv_cgf_def)
next
  assume "attached cgf1 nucleus \<and> attached cgf2 nucleus \<and> attached cgf3 nucleus \<and>
    attached cgf4 nucleus"
  then show "repulsion_deriv_cgf nrm repulsion_gto cgf1 cgf2 cgf3 cgf4 nucleus coord = 0"
    by (simp add: repulsion_deriv_cgf_def)
next
  assume "cgf_r cgf1 = nucleus"
  then show "attached cgf1 nucleus" by (rule attached_coinciding)
qed

theorem derivatives_vanish_witness:
  "let G = [\<lparr>gto_c = 1, gto_position = (0, 0, 0), gto_alpha = 1 / 2, gto_l = 0, gto_m = 0,
              gto_n = 0, gto_norm = 1\<rparr>] in
   attached \<lparr>cgf_r = (0, 0, 0), cgf_gtos = G\<rparr> (0, 0, 0) \<and>
   \<not> attached \<lparr>cgf_r = (1, 0, 0), cgf_gtos = G\<rparr> (0, 0, 0) \<and>
   overlap_deriv_cgf \<lparr>cgf_r = (0, 0, 0), cgf_gtos = G\<rparr> \<lparr>cgf_r = (0, 0, 0), cgf_gtos = G\<rparr>
     (0, 0, 0) 0 = 0 \<and>
   kinetic_deriv_cgf (\<lambda>a l m n. 1) \<lparr>cgf_r = (1, 0, 0), cgf_gtos = G\<rparr> \<lparr>cgf_r = (1, 0, 0), cgf_gtos = G\<rparr>
     (0, 0, 0) 0 = 0 \<and>
   repulsion_deriv_cgf (\<lambda>a l m n. 1) (\<lambda>a b c d. 0) \<lparr>cgf_r = (1, 0, 0), cgf_gtos = G\<rparr>
     \<lparr>cgf_r = (1, 0, 0), cgf_gtos = G\<rparr> \<lparr>cgf_r = (1, 0, 0), cgf_gtos = G\<rparr>
     \<lparr>cgf_r = (1, 0, 0), cgf_gtos = G\<rparr> (0, 0, 0) 0 = 0"
proof -
  let ?G = "[\<lparr>gto_c = 1, gto_position = (0, 0, 0), gto_alpha = 1 / 2, gto_l = 0, gto_m = 0,
              gto_n = 0, gto_norm = 1\<rparr>]"
  let ?a = "\<lparr>cgf_r = (0, 0, 0), cgf_gtos = ?G\<rparr>" and ?b = "\<lparr>cgf_r = (1, 0, 0), cgf_gtos = ?G\<rparr>"
  have a: "attached ?a (0, 0, 0)"
    by (simp add: attached_def squaredNorm_def vec_minus_def vec_at_def)
  have b: "\<not> attached ?b (0, 0, 0)"
    by (simp add: attached_def squaredNorm_def vec_minus_def vec_at_def)
  show ?thesis
    using a b derivatives_vanish [of ?a "(0, 0, 0)" ?a 0 "\<lambda>a l m n. 1" ?a ?a "\<lambda>a b c d. 0"]
      derivatives_vanish [of ?b "(0, 0, 0)" ?b 0 "\<lambda>a l m n. 1" ?b ?b "\<lambda>a b c d. 0"]
    by (simp add: Let_def)
qed

end
